theory Spec2Isabelle
  imports Main "HOL-Library.Multiset"
begin

section \<open>The JavaScript runtime, as far as the modelled code uses it\<close>

text \<open>
  A JavaScript string is modelled as a \<^typ>\<open>string\<close>: a list of code units, each below 256.
  The regular expressions of the source use the classes \<open>\d\<close>, \<open>\s\<close>, \<open>\w\<close> (through
  \<open>\b\<close>), \<open>[a-z]\<close> and a few literal characters; on these code units they are the
  predicates below.
\<close>

subsection \<open>Character classes\<close>

definition is_digit :: "char \<Rightarrow> bool" where
  \<comment> \<open>\<open>\d\<close>\<close>
  "is_digit c \<longleftrightarrow> c \<in> set ''0123456789''"

definition is_space :: "char \<Rightarrow> bool" where
  \<comment> \<open>\<open>\s\<close>: tab, line feed, vertical tab, form feed, carriage return, space, no-break space\<close>
  "is_space c \<longleftrightarrow> c \<in> set [CHR 0x09, CHR 0x0A, CHR 0x0B, CHR 0x0C, CHR 0x0D, CHR '' '', CHR 0xA0]"

definition is_lower_letter :: "char \<Rightarrow> bool" where
  \<comment> \<open>\<open>[a-z]\<close>\<close>
  "is_lower_letter c \<longleftrightarrow> c \<in> set ''abcdefghijklmnopqrstuvwxyz''"

definition is_upper_letter :: "char \<Rightarrow> bool" where
  \<comment> \<open>\<open>[A-Z]\<close>\<close>
  "is_upper_letter c \<longleftrightarrow> c \<in> set ''ABCDEFGHIJKLMNOPQRSTUVWXYZ''"

definition is_word_char :: "char \<Rightarrow> bool" where
  \<comment> \<open>\<open>\w\<close>, that is \<open>[A-Za-z0-9_]\<close>\<close>
  "is_word_char c \<longleftrightarrow> is_lower_letter c \<or> is_upper_letter c \<or> is_digit c \<or> c = CHR ''_''"

definition is_separator :: "char \<Rightarrow> bool" where
  \<comment> \<open>\<open>[_\-\s]\<close>\<close>
  "is_separator c \<longleftrightarrow> c = CHR ''_'' \<or> c = CHR ''-'' \<or> is_space c"

definition is_date_separator :: "char \<Rightarrow> bool" where
  \<comment> \<open>\<open>[_\-\.]\<close>\<close>
  "is_date_separator c \<longleftrightarrow> c = CHR ''_'' \<or> c = CHR ''-'' \<or> c = CHR ''.''"

definition is_comma_space :: "char \<Rightarrow> bool" where
  \<comment> \<open>\<open>[,\s]\<close>\<close>
  "is_comma_space c \<longleftrightarrow> c = CHR '','' \<or> is_space c"

definition toLowerCase_char :: "char \<Rightarrow> char" where
  "toLowerCase_char c =
     (case map_of (zip ''ABCDEFGHIJKLMNOPQRSTUVWXYZ'' ''abcdefghijklmnopqrstuvwxyz'') c of
        Some l \<Rightarrow> l
      | None \<Rightarrow> c)"

definition toLowerCase :: "string \<Rightarrow> string" where
  \<comment> \<open>\<open>String.prototype.toLowerCase\<close>; a code unit from 128 to 255 never becomes one the
      patterns below can match, so it is left as it is\<close>
  "toLowerCase s = map toLowerCase_char s"

subsection \<open>Numbers\<close>

text \<open>
  A JavaScript number is a double. The modelled code computes with whole numbers only
  (sequence numbers, time values, lecture numbers), so a \<open>number\<close> is a double whose value
  is an integer, an infinity, or \<open>NaN\<close>. \<open>round_to_double\<close> is the double nearest to an
  integer, the even one of two equally near: an integer below \<open>2^53\<close> in magnitude is a
  double; a larger one keeps its 53 leading bits; one that rounds to \<open>2^1024\<close> or more is an
  infinity.
\<close>

datatype number = Num int | PosInf | NegInf | NaN

function bit_length :: "int \<Rightarrow> nat" where
  \<comment> \<open>the number of binary digits of a positive integer\<close>
  "bit_length n = (if n \<le> 0 then 0 else Suc (bit_length (n div 2)))"
  by pat_completeness auto
termination
  by (relation "measure nat") auto

declare bit_length.simps [simp del]

definition round_to_double :: "int \<Rightarrow> number" where
  "round_to_double n =
     (if \<bar>n\<bar> < 2 ^ 53 then Num n
      else
        (let m = \<bar>n\<bar>;
             e = bit_length m - 53;
             q = m div 2 ^ e;
             r = m mod 2 ^ e;
             v = (if 2 ^ e < 2 * r \<or> (2 * r = 2 ^ e \<and> odd q) then q + 1 else q) * 2 ^ e
         in if 2 ^ 1024 \<le> v then (if n < 0 then NegInf else PosInf)
            else Num (if n < 0 then - v else v)))"

definition num_sub :: "number \<Rightarrow> number \<Rightarrow> number" where
  \<comment> \<open>\<open>x - y\<close>\<close>
  "num_sub x y =
     (case (x, y) of
        (Num a, Num b) \<Rightarrow> round_to_double (a - b)
      | (NaN, _) \<Rightarrow> NaN
      | (_, NaN) \<Rightarrow> NaN
      | (PosInf, PosInf) \<Rightarrow> NaN
      | (NegInf, NegInf) \<Rightarrow> NaN
      | (PosInf, _) \<Rightarrow> PosInf
      | (NegInf, _) \<Rightarrow> NegInf
      | (Num a, PosInf) \<Rightarrow> NegInf
      | (Num a, NegInf) \<Rightarrow> PosInf)"

definition num_abs :: "number \<Rightarrow> number" where
  \<comment> \<open>\<open>Math.abs\<close>\<close>
  "num_abs x = (case x of Num a \<Rightarrow> Num \<bar>a\<bar> | PosInf \<Rightarrow> PosInf | NegInf \<Rightarrow> PosInf | NaN \<Rightarrow> NaN)"

definition num_less :: "number \<Rightarrow> number \<Rightarrow> bool" where
  \<comment> \<open>\<open>x < y\<close>; false when either side is \<open>NaN\<close>\<close>
  "num_less x y =
     (case (x, y) of
        (Num a, Num b) \<Rightarrow> a < b
      | (NaN, _) \<Rightarrow> False
      | (_, NaN) \<Rightarrow> False
      | (NegInf, NegInf) \<Rightarrow> False
      | (NegInf, _) \<Rightarrow> True
      | (PosInf, _) \<Rightarrow> False
      | (Num a, PosInf) \<Rightarrow> True
      | (Num a, NegInf) \<Rightarrow> False)"

definition num_le :: "number \<Rightarrow> number \<Rightarrow> bool" where
  \<comment> \<open>\<open>x <= y\<close>; false when either side is \<open>NaN\<close>\<close>
  "num_le x y \<longleftrightarrow> x \<noteq> NaN \<and> y \<noteq> NaN \<and> \<not> num_less y x"

definition to_order :: "number \<Rightarrow> int" where
  \<comment> \<open>what \<open>sort\<close> makes of the number its comparator returns: \<open>NaN\<close> is read as 0, and
      only the comparison with 0 is used, for which an infinity is as good as 1 or -1\<close>
  "to_order v = (case v of Num n \<Rightarrow> n | PosInf \<Rightarrow> 1 | NegInf \<Rightarrow> - 1 | NaN \<Rightarrow> 0)"

subsection \<open>\<open>parseInt\<close> on a string of digits\<close>

definition digit_value :: "char \<Rightarrow> int" where
  "digit_value c =
     (case map_of (zip ''0123456789'' [0, 1, 2, 3, 4, 5, 6, 7, 8, 9]) c of
        Some v \<Rightarrow> v
      | None \<Rightarrow> 0)"

definition digits_value :: "string \<Rightarrow> int" where
  \<comment> \<open>the integer that a string of decimal digits writes\<close>
  "digits_value ds = foldl (\<lambda>n c. 10 * n + digit_value c) 0 ds"

definition parseInt :: "string \<Rightarrow> number" where
  \<comment> \<open>only ever applied to a non-empty capture of \<open>\d\<close>; radix 10 (also the default for
      such a string). The result is the double nearest to the integer written, as V8
      computes it.\<close>
  "parseInt ds = round_to_double (digits_value ds)"

subsection \<open>Leftmost matching\<close>

text \<open>
  \<open>String.prototype.match\<close> with a pattern without the \<open>g\<close> flag returns the match that
  starts leftmost. \<open>find_first\<close> tries a matcher anchored at the current position on every
  suffix from left to right, the empty suffix included; the matcher also receives the
  character before the position (for \<open>\b\<close> and the lookbehind).
\<close>

fun find_first :: "(char option \<Rightarrow> string \<Rightarrow> 'a option) \<Rightarrow> char option \<Rightarrow> string \<Rightarrow> 'a option" where
  "find_first p prev [] = p prev []"
| "find_first p prev (c # cs) =
     (case p prev (c # cs) of
        Some r \<Rightarrow> Some r
      | None \<Rightarrow> find_first p (Some c) cs)"

subsection \<open>\<open>path.extname\<close> and \<open>path.basename\<close> (POSIX)\<close>

definition last_component :: "string \<Rightarrow> string" where
  \<comment> \<open>the last path component: trailing slashes dropped, then everything after the last
      slash\<close>
  "last_component p =
     (let trimmed = dropWhile (\<lambda>c. c = CHR ''/'') (rev p)
      in rev (takeWhile (\<lambda>c. c \<noteq> CHR ''/'') trimmed))"

definition extname :: "string \<Rightarrow> string" where
  \<comment> \<open>from the last dot of the last component to its end; empty when there is no dot, when
      the only dot starts the component, or when the component is \<open>..\<close>\<close>
  "extname p =
     (let part = last_component p;
          after_dot = takeWhile (\<lambda>c. c \<noteq> CHR ''.'') (rev part)
      in if CHR ''.'' \<notin> set part then []
         else let startDot = length part - length after_dot - 1
              in if startDot = 0 \<or> part = ''..'' then [] else drop startDot part)"

definition basename :: "string \<Rightarrow> string \<Rightarrow> string" where
  \<comment> \<open>the last component, without \<open>suffix\<close> when it ends with it and is not equal to it\<close>
  "basename p suffix =
     (let part = last_component p
      in if suffix \<noteq> [] \<and> length suffix \<le> length p then
           if suffix = p then []
           else if length suffix < length part \<and> drop (length part - length suffix) part = suffix
                then take (length part - length suffix) part
                else part
         else part)"

section \<open>Filename metadata (\<open>lib/metadata.ts\<close>)\<close>

subsection \<open>\<open>parseSequenceFromFilename\<close>\<close>

definition match_leading :: "string \<Rightarrow> string option" where
  \<comment> \<open>\<open>/^(\d+)[_\-\s]/\<close>: the digits at the start, all of them, then a separator\<close>
  "match_leading base =
     (let ds = takeWhile is_digit base
      in case drop (length ds) base of
           [] \<Rightarrow> None
         | c # _ \<Rightarrow> if ds \<noteq> [] \<and> is_separator c then Some ds else None)"

definition match_part_here :: "char option \<Rightarrow> string \<Rightarrow> string option" where
  \<comment> \<open>\<open>/\bpart[_\-\s]*(\d+)\b/i\<close> anchored here. The first \<open>\b\<close> holds when the character
      before is not a word character; the separators and the digits are taken greedily and
      no shorter choice can match, so the second \<open>\b\<close> asks that no word character follows
      the last digit.\<close>
  "match_part_here prev s =
     (if (case prev of None \<Rightarrow> True | Some c \<Rightarrow> \<not> is_word_char c)
         \<and> toLowerCase (take 4 s) = ''part''
      then let r = dropWhile is_separator (drop 4 s);
               ds = takeWhile is_digit r
           in if ds \<noteq> []
                 \<and> (case drop (length ds) r of [] \<Rightarrow> True | c # _ \<Rightarrow> \<not> is_word_char c)
              then Some ds else None
      else None)"

definition match_trailing_here :: "char option \<Rightarrow> string \<Rightarrow> string option" where
  \<comment> \<open>\<open>/[_\-\s](\d+)$/\<close> anchored here\<close>
  "match_trailing_here prev s =
     (case s of
        [] \<Rightarrow> None
      | c # ds \<Rightarrow> if is_separator c \<and> ds \<noteq> [] \<and> list_all is_digit ds then Some ds else None)"

definition match_bare :: "string \<Rightarrow> string option" where
  \<comment> \<open>\<open>/^(\d+)$/\<close>\<close>
  "match_bare base = (if base \<noteq> [] \<and> list_all is_digit base then Some base else None)"

definition parseSequenceFromFilename :: "string \<Rightarrow> number option" where
  "parseSequenceFromFilename filename =
     (let base = basename filename (extname filename)
      in case match_leading base of
           Some leading \<Rightarrow> Some (parseInt leading)
         | None \<Rightarrow>
             (case find_first match_part_here None base of
                Some part \<Rightarrow> Some (parseInt part)
              | None \<Rightarrow>
                  (case find_first match_trailing_here None base of
                     Some trailing \<Rightarrow> Some (parseInt trailing)
                   | None \<Rightarrow>
                       (case match_bare base of
                          Some bare \<Rightarrow> Some (parseInt bare)
                        | None \<Rightarrow> None))))"

subsection \<open>\<open>Date\<close>\<close>

text \<open>
  A \<open>Date\<close> holds a time value: a number of milliseconds since the epoch, or \<open>NaN\<close> (an
  invalid date, for which \<open>isNaN(d.getTime())\<close> holds). \<open>new Date(year, month, day)\<close>
  follows ECMAScript's \<open>MakeDay\<close>, which carries a month outside \<open>0..11\<close> into the year and
  counts a day outside the month on from the first of the month. The local time zone is
  taken to be UTC, as in the container image the application ships in.
\<close>

datatype Date = InvalidDate | Date int

definition msPerDay :: int where
  "msPerDay = 86400000"

definition DayFromYear :: "int \<Rightarrow> int" where
  "DayFromYear y =
     365 * (y - 1970) + (y - 1969) div 4 - (y - 1901) div 100 + (y - 1601) div 400"

definition InLeapYear :: "int \<Rightarrow> bool" where
  "InLeapYear y \<longleftrightarrow> y mod 4 = 0 \<and> (y mod 100 \<noteq> 0 \<or> y mod 400 = 0)"

definition DaysBeforeMonth :: "bool \<Rightarrow> int \<Rightarrow> int" where
  \<comment> \<open>the day within the year of the first of month \<open>mn\<close>, for \<open>mn\<close> in \<open>0..11\<close>\<close>
  "DaysBeforeMonth leap mn =
     [0, 31, 59, 90, 120, 151, 181, 212, 243, 273, 304, 334] ! nat mn
       + (if leap \<and> 2 \<le> mn then 1 else 0)"

definition MakeDay :: "int \<Rightarrow> int \<Rightarrow> int \<Rightarrow> int" where
  "MakeDay year month date =
     (let ym = year + month div 12;
          mn = month mod 12
      in DayFromYear ym + DaysBeforeMonth (InLeapYear ym) mn + date - 1)"

definition TimeClip :: "int \<Rightarrow> Date" where
  "TimeClip t = (if 8640000000000000 < \<bar>t\<bar> then InvalidDate else Date t)"

definition new_Date :: "int \<Rightarrow> int \<Rightarrow> int \<Rightarrow> Date" where
  \<comment> \<open>\<open>new Date(year, month, date)\<close>; a year from 0 to 99 means 1900 + year\<close>
  "new_Date year month date =
     (let yr = (if 0 \<le> year \<and> year \<le> 99 then 1900 + year else year)
      in TimeClip (MakeDay yr month date * msPerDay))"

subsection \<open>\<open>parseDateFromFilename\<close>\<close>

definition match_ymd_here :: "char option \<Rightarrow> string \<Rightarrow> (string \<times> string \<times> string) option" where
  \<comment> \<open>\<open>/(\d{4})[_\-\.](\d{2})[_\-\.](\d{2})/\<close> anchored here\<close>
  "match_ymd_here prev s =
     (if 10 \<le> length s
         \<and> list_all is_digit (take 4 s) \<and> is_date_separator (s ! 4)
         \<and> list_all is_digit (take 2 (drop 5 s)) \<and> is_date_separator (s ! 7)
         \<and> list_all is_digit (take 2 (drop 8 s))
      then Some (take 4 s, take 2 (drop 5 s), take 2 (drop 8 s))
      else None)"

definition match_compact_here :: "char option \<Rightarrow> string \<Rightarrow> (string \<times> string \<times> string) option" where
  \<comment> \<open>\<open>/(?<!\d)(\d{4})(\d{2})(\d{2})(?!\d)/\<close> anchored here\<close>
  "match_compact_here prev s =
     (if (case prev of None \<Rightarrow> True | Some c \<Rightarrow> \<not> is_digit c)
         \<and> 8 \<le> length s \<and> list_all is_digit (take 8 s)
         \<and> (case drop 8 s of [] \<Rightarrow> True | c # _ \<Rightarrow> \<not> is_digit c)
      then Some (take 4 s, take 2 (drop 4 s), take 2 (drop 6 s))
      else None)"

definition is_letter :: "char \<Rightarrow> bool" where
  \<comment> \<open>\<open>[a-z]\<close> under the \<open>i\<close> flag\<close>
  "is_letter c \<longleftrightarrow> is_lower_letter c \<or> is_upper_letter c"

definition match_year_tail :: "string \<Rightarrow> string option" where
  \<comment> \<open>\<open>[a-z]*[,\s]+(\d{4})\<close> anchored here: both repetitions are greedy and no shorter
      choice can match, since a letter, a comma or a space is never a digit\<close>
  "match_year_tail s =
     (let r = dropWhile is_letter s;
          r' = dropWhile is_comma_space r;
          y = take 4 r'
      in if length r' < length r \<and> length y = 4 \<and> list_all is_digit y then Some y else None)"

definition match_short_here :: "string \<Rightarrow> char option \<Rightarrow> string \<Rightarrow> (string \<times> string) option" where
  \<comment> \<open>\<open>/(mon)[a-z]*\s*(\d{1,2})[,\s]+(\d{4})/i\<close> anchored here: the day is the whole run of
      digits, which must have one or two digits\<close>
  "match_short_here mon prev s =
     (if toLowerCase (take (length mon) s) = mon then
        let r = dropWhile is_space (dropWhile is_letter (drop (length mon) s));
            ds = takeWhile is_digit r;
            r' = drop (length ds) r;
            r'' = dropWhile is_comma_space r';
            y = take 4 r''
        in if (length ds = 1 \<or> length ds = 2) \<and> length r'' < length r'
              \<and> length y = 4 \<and> list_all is_digit y
           then Some (ds, y) else None
      else None)"

definition match_reverse_here :: "string \<Rightarrow> char option \<Rightarrow> string \<Rightarrow> (string \<times> string) option" where
  \<comment> \<open>\<open>/(\d{1,2})\s+(mon)[a-z]*[,\s]+(\d{4})/i\<close> anchored here: the day is the first two
      characters when both are digits, else the first when it is a digit\<close>
  "match_reverse_here mon prev s =
     (let ds = take 2 (takeWhile is_digit s);
          r = drop (length ds) s;
          r' = dropWhile is_space r
      in if ds \<noteq> [] \<and> length r' < length r \<and> toLowerCase (take (length mon) r') = mon
         then (case match_year_tail (drop (length mon) r') of
                 Some y \<Rightarrow> Some (ds, y)
               | None \<Rightarrow> None)
         else None)"

definition monthNames :: "string list" where
  "monthNames =
     [''jan'', ''feb'', ''mar'', ''apr'', ''may'', ''jun'',
      ''jul'', ''aug'', ''sep'', ''oct'', ''nov'', ''dec'']"

definition monthFull :: "string list" where
  "monthFull =
     [''january'', ''february'', ''march'', ''april'', ''may'', ''june'',
      ''july'', ''august'', ''september'', ''october'', ''november'', ''december'']"

definition valid_date :: "Date \<Rightarrow> Date option" where
  \<comment> \<open>\<open>if (!isNaN(d.getTime())) return d\<close>\<close>
  "valid_date d = (if d = InvalidDate then None else Some d)"

text \<open>
  The month-name loop. \<open>new Date(string)\<close> on a string that is not in the ISO format is
  left to the engine by ECMAScript, so the model takes it as the parameter \<open>parse\<close>.
\<close>

fun month_loop :: "(string \<Rightarrow> Date) \<Rightarrow> string \<Rightarrow> (string \<times> string) list \<Rightarrow> Date option" where
  "month_loop parse lower [] = None"
| "month_loop parse lower ((mon, full) # rest) =
     (case (case find_first (match_short_here mon) None lower of
              Some (day, year) \<Rightarrow> valid_date (parse (full @ '' '' @ day @ '' '' @ year))
            | None \<Rightarrow> None) of
        Some d \<Rightarrow> Some d
      | None \<Rightarrow>
          (case (case find_first (match_reverse_here mon) None lower of
                   Some (day, year) \<Rightarrow> valid_date (parse (full @ '' '' @ day @ '' '' @ year))
                 | None \<Rightarrow> None) of
             Some d \<Rightarrow> Some d
           | None \<Rightarrow> month_loop parse lower rest))"

definition ymd_date :: "string \<Rightarrow> Date option" where
  \<comment> \<open>the first attempt: \<open>YYYY-MM-DD\<close>, \<open>YYYY_MM_DD\<close> or \<open>YYYY.MM.DD\<close>. \<open>parseInt\<close> of a
      capture of at most four digits is the integer itself.\<close>
  "ymd_date base =
     (case find_first match_ymd_here None base of
        Some (ys, ms, ds) \<Rightarrow>
          (case (parseInt ys, parseInt ms, parseInt ds) of
             (Num y, Num m, Num dy) \<Rightarrow>
               (let dt = new_Date y (m - 1) dy
                in if dt \<noteq> InvalidDate \<and> 2000 < y then Some dt else None)
           | _ \<Rightarrow> None)
      | None \<Rightarrow> None)"

definition compact_date :: "string \<Rightarrow> Date option" where
  \<comment> \<open>the second attempt: \<open>YYYYMMDD\<close>\<close>
  "compact_date base =
     (case find_first match_compact_here None base of
        Some (ys, ms, ds) \<Rightarrow>
          (case (parseInt ys, parseInt ms, parseInt ds) of
             (Num y, Num m, Num dy) \<Rightarrow>
               (if 2000 < y \<and> 1 \<le> m \<and> m \<le> 12 \<and> 1 \<le> dy \<and> dy \<le> 31
                then valid_date (new_Date y (m - 1) dy) else None)
           | _ \<Rightarrow> None)
      | None \<Rightarrow> None)"

definition parseDateFromFilename :: "(string \<Rightarrow> Date) \<Rightarrow> string \<Rightarrow> Date option" where
  "parseDateFromFilename parse filename =
     (let base = basename filename (extname filename)
      in case ymd_date base of
           Some d \<Rightarrow> Some d
         | None \<Rightarrow>
             (case compact_date base of
                Some d \<Rightarrow> Some d
              | None \<Rightarrow> month_loop parse (toLowerCase base) (zip monthNames monthFull)))"

subsection \<open>\<open>getRecordedAt\<close>\<close>

text \<open>
  The file system is a map from a path to the file's modification time;
  \<open>fs.statSync\<close> throws when there is no file at the path.
\<close>

datatype fs_error = ENOENT string

definition statSync_mtime :: "(string \<rightharpoonup> int) \<Rightarrow> string \<Rightarrow> fs_error + Date" where
  "statSync_mtime fs filePath =
     (case fs filePath of
        None \<Rightarrow> Inl (ENOENT filePath)
      | Some mtime \<Rightarrow> Inr (Date mtime))"

definition getRecordedAt ::
  "(string \<Rightarrow> Date) \<Rightarrow> (string \<rightharpoonup> int) \<Rightarrow> string \<Rightarrow> string \<Rightarrow> fs_error + Date" where
  "getRecordedAt parse fs filePath originalName =
     (case parseDateFromFilename parse originalName of
        Some fromName \<Rightarrow> Inr fromName
      | None \<Rightarrow> statSync_mtime fs filePath)"

section \<open>\<open>Array.prototype.sort\<close>\<close>

text \<open>
  ECMAScript fixes the result of \<open>sort\<close> when the comparator is consistent (the stable
  sorted order) and leaves it to the engine otherwise. V8, the engine of the Node image,
  sorts an array of fewer than 64 elements as modelled here: the run at the start of the
  array is found (and reversed when it is strictly descending), then every later element is
  placed into the sorted prefix by a binary search. The comparator is called as the engine
  calls it: the later element first when the run is counted, the new element first in the
  search. From 64 elements on V8 cuts the array into runs and merges them; that path is not
  modelled, and \<open>Array_sort\<close> takes the engine's sort of a long array as its first argument.
\<close>

fun count_run :: "('a \<Rightarrow> 'a \<Rightarrow> int) \<Rightarrow> bool \<Rightarrow> 'a \<Rightarrow> 'a list \<Rightarrow> nat" where
  \<comment> \<open>how many further elements extend the run that ends with \<open>previous\<close>\<close>
  "count_run cmp descending previous [] = 0"
| "count_run cmp descending previous (current # rest) =
     (let order = cmp current previous
      in if (if descending then 0 \<le> order else order < 0) then 0
         else Suc (count_run cmp descending current rest))"

definition CountAndMakeRun :: "('a \<Rightarrow> 'a \<Rightarrow> int) \<Rightarrow> 'a list \<Rightarrow> 'a list \<times> 'a list" where
  \<comment> \<open>the initial run, in ascending order, and the elements after it\<close>
  "CountAndMakeRun cmp xs =
     (case xs of
        [] \<Rightarrow> ([], [])
      | [x] \<Rightarrow> ([x], [])
      | x # y # rest \<Rightarrow>
          (let isDescending = (cmp y x < 0);
               runLength = 2 + count_run cmp isDescending y rest;
               run = take runLength xs
           in (if isDescending then rev run else run, drop runLength xs)))"

function find_insertion_point :: "('a \<Rightarrow> 'a \<Rightarrow> int) \<Rightarrow> 'a \<Rightarrow> 'a list \<Rightarrow> nat \<Rightarrow> nat \<Rightarrow> nat" where
  "find_insertion_point cmp pivot xs left right =
     (if left < right then
        (let mid = left + (right - left) div 2
         in if cmp pivot (xs ! mid) < 0
            then find_insertion_point cmp pivot xs left mid
            else find_insertion_point cmp pivot xs (mid + 1) right)
      else left)"
  by pat_completeness auto
termination
  by (relation "measure (\<lambda>(cmp, pivot, xs, left, right). right - left)") auto

fun BinaryInsertionSort :: "('a \<Rightarrow> 'a \<Rightarrow> int) \<Rightarrow> 'a list \<Rightarrow> 'a list \<Rightarrow> 'a list" where
  \<comment> \<open>\<open>placed\<close> is the prefix already in order, the second list the elements still to place\<close>
  "BinaryInsertionSort cmp placed [] = placed"
| "BinaryInsertionSort cmp placed (pivot # rest) =
     (let left = find_insertion_point cmp pivot placed 0 (length placed)
      in BinaryInsertionSort cmp (take left placed @ pivot # drop left placed) rest)"

definition sort_short :: "('a \<Rightarrow> 'a \<Rightarrow> int) \<Rightarrow> 'a list \<Rightarrow> 'a list" where
  \<comment> \<open>the engine's sort of an array of fewer than 64 elements\<close>
  "sort_short cmp xs = (case CountAndMakeRun cmp xs of (run, rest) \<Rightarrow> BinaryInsertionSort cmp run rest)"

type_synonym 'a sort_long = "('a \<Rightarrow> 'a \<Rightarrow> int) \<Rightarrow> 'a list \<Rightarrow> 'a list"

definition Array_sort :: "'a sort_long \<Rightarrow> ('a \<Rightarrow> 'a \<Rightarrow> number) \<Rightarrow> 'a list \<Rightarrow> 'a list" where
  "Array_sort long comparefn xs =
     (let cmp = (\<lambda>x y. to_order (comparefn x y))
      in if length xs < 64 then sort_short cmp xs else long cmp xs)"

definition Array_join :: "string \<Rightarrow> string list \<Rightarrow> string" where
  "Array_join sep xs = (case xs of [] \<Rightarrow> [] | x # rest \<Rightarrow> foldl (\<lambda>acc y. acc @ sep @ y) x rest)"

section \<open>Types (\<open>types/index.ts\<close>)\<close>

text \<open>
  The fields \<open>recordedAt\<close>, \<open>uploadedAt\<close>, \<open>createdAt\<close> and \<open>generatedAt\<close> hold an ISO string
  in the source, written by \<open>toISOString\<close> and read back by \<open>new Date(...).getTime()\<close>; the
  model holds the time value the string stands for. A \<open>lectureNumber\<close> comes unchecked from
  the reply of the grouping service; the model holds the number that the subtraction in the
  comparator of \<open>getAllLectures\<close> reads from the stored value: \<open>NaN\<close> for a value that is
  missing or is no number (a number with a fraction is left out). Field names that several
  interfaces share, or that HOL already uses, carry a prefix.
\<close>

datatype file_status = st_uploaded | st_transcribing | st_transcribed | st_error

record AudioFile =
  af_id :: string
  originalName :: string
  savedPath :: string
  mimeType :: string
  af_size :: nat
  recordedAt :: int
  uploadedAt :: int
  af_status :: file_status
  af_errorMessage :: "string option"

text \<open>\<open>Partial<AudioFile>\<close>: every key may be absent (\<open>None\<close>).\<close>

record AudioFile_partial =
  p_id :: "string option"
  p_originalName :: "string option"
  p_savedPath :: "string option"
  p_mimeType :: "string option"
  p_size :: "nat option"
  p_recordedAt :: "int option"
  p_uploadedAt :: "int option"
  p_status :: "file_status option"
  p_errorMessage :: "string option option"

definition no_updates :: AudioFile_partial where
  \<comment> \<open>the object literal \<open>{}\<close>\<close>
  "no_updates =
     \<lparr>p_id = None, p_originalName = None, p_savedPath = None, p_mimeType = None,
      p_size = None, p_recordedAt = None, p_uploadedAt = None, p_status = None,
      p_errorMessage = None\<rparr>"

text \<open>
  Of a \<open>Transcription\<close> the handlers read the key and the text only; the word list, the
  confidence, the duration and the paragraphs are carried along unread and are left out.
\<close>

record Transcription =
  audioFileId :: string
  transcript_text :: string

record Lecture =
  lec_id :: string
  lectureNumber :: number
  title :: string
  summary :: string
  keyTopics :: "string list"
  audioFileIds :: "string list"
  fullTranscript :: string
  createdAt :: int

datatype PodcastFormat = qa | narrative | discussion

record PodcastScript =
  ps_id :: string
  ps_lectureId :: string
  ps_format :: PodcastFormat
  ps_title :: string
  ps_description :: string
  ps_script :: string
  ps_generatedAt :: int

datatype phase = ph_idle | ph_uploading | ph_transcribing | ph_processing | ph_complete | ph_error

record ProcessingStatus =
  totalFiles :: nat
  transcribedFiles :: nat
  lecturesGenerated :: nat
  phase :: phase
  errorMessage :: "string option"

record ProcessingStatus_partial =
  p_totalFiles :: "nat option"
  p_transcribedFiles :: "nat option"
  p_lecturesGenerated :: "nat option"
  p_phase :: "phase option"
  p_statusMessage :: "string option option"

definition no_status_updates :: ProcessingStatus_partial where
  "no_status_updates =
     \<lparr>p_totalFiles = None, p_transcribedFiles = None, p_lecturesGenerated = None,
      p_phase = None, p_statusMessage = None\<rparr>"

section \<open>The store (\<open>lib/store.ts\<close>)\<close>

text \<open>
  A JavaScript \<open>Map\<close> keeps its entries in insertion order, and \<open>set\<close> on a key that is
  present replaces the value where it stands: an association list.
\<close>

type_synonym ('k, 'v) Map = "('k \<times> 'v) list"

fun Map_set :: "'k \<Rightarrow> 'v \<Rightarrow> ('k, 'v) Map \<Rightarrow> ('k, 'v) Map" where
  "Map_set k v [] = [(k, v)]"
| "Map_set k v ((k', v') # m) = (if k' = k then (k, v) # m else (k', v') # Map_set k v m)"

definition Map_get :: "('k, 'v) Map \<Rightarrow> 'k \<Rightarrow> 'v option" where
  "Map_get m k = map_of m k"

definition Map_values :: "('k, 'v) Map \<Rightarrow> 'v list" where
  "Map_values m = map snd m"

record StoreData =
  audioFiles :: "(string, AudioFile) Map"
  transcriptions :: "(string, Transcription) Map"
  lectures :: "(string, Lecture) Map"
  podcastScripts :: "(string, PodcastScript) Map"
  status :: ProcessingStatus

definition createStore :: StoreData where
  "createStore =
     \<lparr>audioFiles = [], transcriptions = [], lectures = [], podcastScripts = [],
      status = \<lparr>totalFiles = 0, transcribedFiles = 0, lecturesGenerated = 0,
                phase = ph_idle, errorMessage = None\<rparr>\<rparr>"

definition override :: "'a \<Rightarrow> 'a option \<Rightarrow> 'a" where
  \<comment> \<open>one key of \<open>{ ...existing, ...updates }\<close>\<close>
  "override existing supplied = (case supplied of None \<Rightarrow> existing | Some v \<Rightarrow> v)"

definition merge_AudioFile :: "AudioFile \<Rightarrow> AudioFile_partial \<Rightarrow> AudioFile" where
  \<comment> \<open>\<open>{ ...existing, ...updates }\<close>\<close>
  "merge_AudioFile existing updates =
     \<lparr>af_id = override (af_id existing) (p_id updates),
      originalName = override (originalName existing) (p_originalName updates),
      savedPath = override (savedPath existing) (p_savedPath updates),
      mimeType = override (mimeType existing) (p_mimeType updates),
      af_size = override (af_size existing) (p_size updates),
      recordedAt = override (recordedAt existing) (p_recordedAt updates),
      uploadedAt = override (uploadedAt existing) (p_uploadedAt updates),
      af_status = override (af_status existing) (p_status updates),
      af_errorMessage = override (af_errorMessage existing) (p_errorMessage updates)\<rparr>"

definition merge_ProcessingStatus :: "ProcessingStatus \<Rightarrow> ProcessingStatus_partial \<Rightarrow> ProcessingStatus" where
  \<comment> \<open>\<open>{ ...store.status, ...updates }\<close>\<close>
  "merge_ProcessingStatus existing updates =
     \<lparr>totalFiles = override (totalFiles existing) (p_totalFiles updates),
      transcribedFiles = override (transcribedFiles existing) (p_transcribedFiles updates),
      lecturesGenerated = override (lecturesGenerated existing) (p_lecturesGenerated updates),
      phase = override (phase existing) (p_phase updates),
      errorMessage = override (errorMessage existing) (p_statusMessage updates)\<rparr>"

definition addAudioFile :: "AudioFile \<Rightarrow> StoreData \<Rightarrow> StoreData" where
  "addAudioFile file s = s\<lparr>audioFiles := Map_set (af_id file) file (audioFiles s)\<rparr>"

definition getAudioFile :: "StoreData \<Rightarrow> string \<Rightarrow> AudioFile option" where
  "getAudioFile s i = Map_get (audioFiles s) i"

definition updateAudioFile :: "string \<Rightarrow> AudioFile_partial \<Rightarrow> StoreData \<Rightarrow> StoreData" where
  "updateAudioFile i updates s =
     (case Map_get (audioFiles s) i of
        Some existing \<Rightarrow>
          s\<lparr>audioFiles := Map_set i (merge_AudioFile existing updates) (audioFiles s)\<rparr>
      | None \<Rightarrow> s)"

definition getAllAudioFiles :: "StoreData \<Rightarrow> AudioFile list" where
  "getAllAudioFiles s = Map_values (audioFiles s)"

definition clearAudioFiles :: "StoreData \<Rightarrow> StoreData" where
  "clearAudioFiles s = s\<lparr>audioFiles := []\<rparr>"

definition addTranscription :: "Transcription \<Rightarrow> StoreData \<Rightarrow> StoreData" where
  "addTranscription t s = s\<lparr>transcriptions := Map_set (audioFileId t) t (transcriptions s)\<rparr>"

definition getTranscription :: "StoreData \<Rightarrow> string \<Rightarrow> Transcription option" where
  "getTranscription s i = Map_get (transcriptions s) i"

definition addLecture :: "Lecture \<Rightarrow> StoreData \<Rightarrow> StoreData" where
  "addLecture lecture s = s\<lparr>lectures := Map_set (lec_id lecture) lecture (lectures s)\<rparr>"

definition getLecture :: "StoreData \<Rightarrow> string \<Rightarrow> Lecture option" where
  "getLecture s i = Map_get (lectures s) i"

definition getAllLectures :: "Lecture sort_long \<Rightarrow> StoreData \<Rightarrow> Lecture list" where
  "getAllLectures long s =
     Array_sort long (\<lambda>a b. num_sub (lectureNumber a) (lectureNumber b))
       (Map_values (lectures s))"

definition clearLectures :: "StoreData \<Rightarrow> StoreData" where
  "clearLectures s = s\<lparr>lectures := []\<rparr>"

definition addPodcastScript :: "PodcastScript \<Rightarrow> StoreData \<Rightarrow> StoreData" where
  "addPodcastScript script s =
     s\<lparr>podcastScripts := Map_set (ps_id script) script (podcastScripts s)\<rparr>"

definition getStatus :: "StoreData \<Rightarrow> ProcessingStatus" where
  "getStatus s = status s"

definition updateStatus :: "ProcessingStatus_partial \<Rightarrow> StoreData \<Rightarrow> StoreData" where
  "updateStatus updates s = s\<lparr>status := merge_ProcessingStatus (status s) updates\<rparr>"

definition reset :: "StoreData \<Rightarrow> StoreData" where
  "reset s = createStore"

section \<open>\<open>POST /api/transcribe\<close>\<close>

text \<open>
  \<open>transcribeAudioFile\<close> reads the file and calls the speech-to-text service; it returns a
  transcription or throws. The handler takes it as the parameter \<open>transcribeAudioFile\<close>, with
  \<open>Inl message\<close> for a throw. The request body is \<open>fileIds\<close>: \<open>None\<close> when the key is
  absent (an empty array is a value, and is truthy).
\<close>

type_synonym transcribe_result = "string \<times> file_status \<times> string option"

datatype transcribe_response =
  NoFilesToTranscribe
| TranscribeResults "transcribe_result list"

definition toTranscribe :: "string list option \<Rightarrow> StoreData \<Rightarrow> AudioFile list" where
  "toTranscribe fileIds s =
     (let allFiles = getAllAudioFiles s
      in case fileIds of
           Some ids \<Rightarrow> filter (\<lambda>f. af_id f \<in> set ids) allFiles
         | None \<Rightarrow> filter (\<lambda>f. af_status f = st_uploaded) allFiles)"

definition mark_transcribing :: "AudioFile \<Rightarrow> StoreData \<Rightarrow> StoreData" where
  \<comment> \<open>the first statement of the loop body\<close>
  "mark_transcribing file s =
     updateAudioFile (af_id file) (no_updates\<lparr>p_status := Some st_transcribing\<rparr>) s"

definition settle ::
  "(string \<Rightarrow> string \<Rightarrow> string \<Rightarrow> string + Transcription) \<Rightarrow> AudioFile \<Rightarrow> StoreData
     \<Rightarrow> StoreData \<times> transcribe_result" where
  \<comment> \<open>the \<open>try\<close>/\<open>catch\<close> around the call of the service\<close>
  "settle transcribeAudioFile file s =
     (case transcribeAudioFile (savedPath file) (af_id file) (mimeType file) of
        Inr transcription \<Rightarrow>
          (updateAudioFile (af_id file) (no_updates\<lparr>p_status := Some st_transcribed\<rparr>)
             (addTranscription transcription s),
           (af_id file, st_transcribed, None))
      | Inl message \<Rightarrow>
          (updateAudioFile (af_id file)
             (no_updates\<lparr>p_status := Some st_error, p_errorMessage := Some (Some message)\<rparr>) s,
           (af_id file, st_error, Some message)))"

definition update_count :: "StoreData \<Rightarrow> StoreData" where
  "update_count s =
     (let transcribed = length (filter (\<lambda>f. af_status f = st_transcribed) (getAllAudioFiles s))
      in updateStatus (no_status_updates\<lparr>p_transcribedFiles := Some transcribed\<rparr>) s)"

fun transcribe_loop ::
  "(string \<Rightarrow> string \<Rightarrow> string \<Rightarrow> string + Transcription) \<Rightarrow> AudioFile list \<Rightarrow> StoreData
     \<Rightarrow> transcribe_result list \<Rightarrow> StoreData \<times> transcribe_result list" where
  "transcribe_loop transcribeAudioFile [] s results = (s, results)"
| "transcribe_loop transcribeAudioFile (file # files) s results =
     (let s1 = mark_transcribing file s;
          (s2, r) = settle transcribeAudioFile file s1;
          s3 = update_count s2
      in transcribe_loop transcribeAudioFile files s3 (results @ [r]))"

definition all_done :: "StoreData \<Rightarrow> bool" where
  \<comment> \<open>\<open>allDone\<close>\<close>
  "all_done s \<longleftrightarrow>
     list_all (\<lambda>f. af_status f = st_transcribed \<or> af_status f = st_error) (getAllAudioFiles s)"

definition transcribe_POST ::
  "(string \<Rightarrow> string \<Rightarrow> string \<Rightarrow> string + Transcription) \<Rightarrow> string list option \<Rightarrow> StoreData
     \<Rightarrow> StoreData \<times> transcribe_response" where
  "transcribe_POST transcribeAudioFile fileIds s =
     (let files = toTranscribe fileIds s
      in if files = [] then (s, NoFilesToTranscribe)
         else
           (let s1 = updateStatus (no_status_updates\<lparr>p_phase := Some ph_transcribing\<rparr>) s;
                (s2, results) = transcribe_loop transcribeAudioFile files s1 []
            in (if all_done s2
                then updateStatus (no_status_updates\<lparr>p_phase := Some ph_processing\<rparr>) s2
                else s2,
                TranscribeResults results)))"

text \<open>
  The stores a request passes through, one after every statement that writes to the store.
  The status route reads the store while a request waits for the service, so a client sees
  them.
\<close>

fun transcribe_loop_states ::
  "(string \<Rightarrow> string \<Rightarrow> string \<Rightarrow> string + Transcription) \<Rightarrow> AudioFile list \<Rightarrow> StoreData
     \<Rightarrow> StoreData list" where
  "transcribe_loop_states transcribeAudioFile [] s = []"
| "transcribe_loop_states transcribeAudioFile (file # files) s =
     (let s1 = mark_transcribing file s;
          s2 = fst (settle transcribeAudioFile file s1);
          s3 = update_count s2
      in s1 # s2 # s3 # transcribe_loop_states transcribeAudioFile files s3)"

definition transcribe_POST_states ::
  "(string \<Rightarrow> string \<Rightarrow> string \<Rightarrow> string + Transcription) \<Rightarrow> string list option \<Rightarrow> StoreData
     \<Rightarrow> StoreData list" where
  "transcribe_POST_states transcribeAudioFile fileIds s =
     (let files = toTranscribe fileIds s
      in if files = [] then []
         else
           (let s1 = updateStatus (no_status_updates\<lparr>p_phase := Some ph_transcribing\<rparr>) s;
                states = transcribe_loop_states transcribeAudioFile files s1;
                s2 = last (s1 # states)
            in s1 # states
               @ [if all_done s2
                  then updateStatus (no_status_updates\<lparr>p_phase := Some ph_processing\<rparr>) s2
                  else s2]))"

section \<open>\<open>POST /api/process\<close>\<close>

subsection \<open>The chronological order\<close>

definition Date_getTime :: "int \<Rightarrow> number" where
  \<comment> \<open>\<open>new Date(f.recordedAt).getTime()\<close>: the time value the string stands for. A \<open>Date\<close>
      holds at most 8640000000000000 in magnitude; a value beyond stands for a string that
      is no date, for which \<open>getTime\<close> is \<open>NaN\<close>.\<close>
  "Date_getTime t = (if \<bar>t\<bar> \<le> 8640000000000000 then Num t else NaN)"

definition CLOSE_THRESHOLD_MS :: number where
  "CLOSE_THRESHOLD_MS = Num (5 * 60 * 1000)"

definition compare_recordings :: "AudioFile \<Rightarrow> AudioFile \<Rightarrow> number" where
  \<comment> \<open>the comparator handed to \<open>sort\<close>\<close>
  "compare_recordings a b =
     (let timeA = Date_getTime (recordedAt a);
          timeB = Date_getTime (recordedAt b);
          timeDiff = num_sub timeA timeB
      in if num_less (num_abs timeDiff) CLOSE_THRESHOLD_MS then
           (case (parseSequenceFromFilename (originalName a),
                  parseSequenceFromFilename (originalName b)) of
              (Some seqA, Some seqB) \<Rightarrow> num_sub seqA seqB
            | _ \<Rightarrow> timeDiff)
         else timeDiff)"

definition order_recordings :: "AudioFile sort_long \<Rightarrow> AudioFile list \<Rightarrow> AudioFile list" where
  \<comment> \<open>\<open>[...transcribedFiles].sort(...)\<close>\<close>
  "order_recordings long files = Array_sort long compare_recordings files"

subsection \<open>The handler\<close>

record TranscriptionInput =
  in_id :: string
  in_originalName :: string
  in_recordedAt :: int
  in_transcript :: string

record LectureGroup =
  g_lectureNumber :: number
  g_title :: string
  g_summary :: string
  g_keyTopics :: "string list"
  g_audioFileIds :: "string list"

text \<open>
  \<open>inferLectures\<close> returns \<open>parsed.lectures\<close> unchecked, so the handler can receive a value
  that is no array, and an element whose \<open>audioFileIds\<close> is no array. Iterating the first
  and calling \<open>map\<close> on the second throw a \<open>TypeError\<close>, whose message the value carries here.
\<close>

datatype group_value = Group LectureGroup | BadGroup string

datatype groups_value = Groups "group_value list" | NotIterable string

text \<open>
  What the handler takes from outside: the engine's sort of a long array, the grouping call
  (\<open>Inl message\<close> when it throws), the identifiers \<open>uuidv4\<close> draws (by the number of the
  draw), the header line of a recording in the full transcript (it depends on the locale),
  and the clock.
\<close>

record process_env =
  sort_long :: "AudioFile sort_long"
  inferLectures :: "TranscriptionInput list \<Rightarrow> string + groups_value"
  uuidv4 :: "nat \<Rightarrow> string"
  header :: "string \<Rightarrow> int \<Rightarrow> string"
  now :: int

datatype process_response =
  Resp_ok nat "Lecture list"
| Resp_400 string
| Resp_500 string

definition process_inputs :: "StoreData \<Rightarrow> AudioFile list \<Rightarrow> TranscriptionInput list" where
  "process_inputs s sorted_files =
     map (\<lambda>f. \<lparr>in_id = af_id f, in_originalName = originalName f, in_recordedAt = recordedAt f,
               in_transcript = (case getTranscription s (af_id f) of
                                  Some transcription \<Rightarrow> transcript_text transcription
                                | None \<Rightarrow> ''(no transcript)'')\<rparr>) sorted_files"

definition build_lecture ::
  "process_env \<Rightarrow> StoreData \<Rightarrow> AudioFile list \<Rightarrow> nat \<Rightarrow> LectureGroup \<Rightarrow> Lecture" where
  "build_lecture env s sorted_files n grp =
     (let groupFiles =
            List.map_filter (\<lambda>i. find (\<lambda>f. af_id f = i) sorted_files) (g_audioFileIds grp);
          fullTranscript =
            Array_join ([CHR 0x0A, CHR 0x0A] @ ''---'' @ [CHR 0x0A, CHR 0x0A])
              (map (\<lambda>f. header env (originalName f) (recordedAt f) @ [CHR 0x0A]
                          @ (case getTranscription s (af_id f) of
                               Some t \<Rightarrow> transcript_text t
                             | None \<Rightarrow> [])) groupFiles);
          dates =
            List.map_filter
              (\<lambda>f. case Date_getTime (recordedAt f) of Num t \<Rightarrow> Some t | _ \<Rightarrow> None) groupFiles;
          earliestDate = (case dates of [] \<Rightarrow> now env | d # ds \<Rightarrow> foldl min d ds)
      in \<lparr>lec_id = uuidv4 env n,
          lectureNumber = g_lectureNumber grp,
          title = g_title grp,
          summary = g_summary grp,
          keyTopics = g_keyTopics grp,
          audioFileIds = g_audioFileIds grp,
          fullTranscript = fullTranscript,
          createdAt = earliestDate\<rparr>)"

fun build_lectures ::
  "process_env \<Rightarrow> AudioFile list \<Rightarrow> group_value list \<Rightarrow> StoreData \<Rightarrow> Lecture list
     \<Rightarrow> StoreData \<times> (string + Lecture list)" where
  \<comment> \<open>the loop over the groups; it stops at the first element that throws\<close>
  "build_lectures env sorted_files [] s savedLectures = (s, Inr savedLectures)"
| "build_lectures env sorted_files (g # rest) s savedLectures =
     (case g of
        BadGroup message \<Rightarrow> (s, Inl message)
      | Group grp \<Rightarrow>
          (let lecture = build_lecture env s sorted_files (length savedLectures) grp
           in build_lectures env sorted_files rest (addLecture lecture s)
                (savedLectures @ [lecture])))"

definition catch_error :: "string \<Rightarrow> StoreData \<Rightarrow> StoreData \<times> process_response" where
  \<comment> \<open>the \<open>catch\<close> block\<close>
  "catch_error message s =
     (updateStatus
        (no_status_updates\<lparr>p_phase := Some ph_error, p_statusMessage := Some (Some message)\<rparr>) s,
      Resp_500 message)"

definition process_POST :: "process_env \<Rightarrow> StoreData \<Rightarrow> StoreData \<times> process_response" where
  "process_POST env s =
     (let s1 = updateStatus (no_status_updates\<lparr>p_phase := Some ph_processing\<rparr>) s;
          transcribed_files = filter (\<lambda>f. af_status f = st_transcribed) (getAllAudioFiles s1)
      in if transcribed_files = [] then (s1, Resp_400 ''No transcribed files to process'')
         else
           (let sorted_files = order_recordings (sort_long env) transcribed_files
            in case inferLectures env (process_inputs s1 sorted_files) of
                 Inl message \<Rightarrow> catch_error message s1
               | Inr lectureGroups \<Rightarrow>
                   (let s2 = clearLectures s1
                    in case lectureGroups of
                         NotIterable message \<Rightarrow> catch_error message s2
                       | Groups groups \<Rightarrow>
                           (case build_lectures env sorted_files groups s2 [] of
                              (s3, Inl message) \<Rightarrow> catch_error message s3
                            | (s3, Inr savedLectures) \<Rightarrow>
                                (updateStatus
                                   (no_status_updates
                                      \<lparr>p_lecturesGenerated := Some (length savedLectures),
                                       p_phase := Some ph_complete\<rparr>) s3,
                                 Resp_ok (length savedLectures) savedLectures)))))"

section \<open>\<open>POST\<close> and \<open>DELETE /api/upload\<close>\<close>

definition ALLOWED_AUDIO_TYPES :: "(string \<times> string) list" where
  "ALLOWED_AUDIO_TYPES =
     [(''audio/mpeg'', ''.mp3''), (''audio/mp4'', ''.mp4''), (''audio/x-m4a'', ''.m4a''),
      (''audio/m4a'', ''.m4a''), (''audio/wav'', ''.wav''), (''audio/wave'', ''.wav''),
      (''audio/x-wav'', ''.wav''), (''audio/ogg'', ''.ogg''), (''audio/webm'', ''.webm''),
      (''audio/flac'', ''.flac''), (''audio/x-flac'', ''.flac''), (''video/mp4'', ''.mp4''),
      (''video/webm'', ''.webm'')]"

definition Object_prototype_keys :: "string list" where
  \<comment> \<open>the properties an object literal inherits: \<open>ALLOWED_AUDIO_TYPES[mimeType]\<close> is truthy
      for these names as well\<close>
  "Object_prototype_keys =
     [''constructor'', ''__defineGetter__'', ''__defineSetter__'', ''hasOwnProperty'',
      ''__lookupGetter__'', ''__lookupSetter__'', ''isPrototypeOf'', ''propertyIsEnumerable'',
      ''toString'', ''valueOf'', ''__proto__'', ''toLocaleString'']"

definition isAllowedAudioType :: "string \<Rightarrow> string \<Rightarrow> bool" where
  "isAllowedAudioType mime filename \<longleftrightarrow>
     mime \<in> fst ` set ALLOWED_AUDIO_TYPES \<or> mime \<in> set Object_prototype_keys
     \<or> toLowerCase (extname filename)
         \<in> set [''.mp3'', ''.mp4'', ''.m4a'', ''.wav'', ''.ogg'', ''.webm'', ''.flac'', ''.aac'',
                ''.opus'']"

definition getUploadDir :: string where
  "getUploadDir = ''/tmp/crammer-uploads''"

text \<open>
  An uploaded \<open>File\<close>, and what the handler takes from outside: a failure to make the upload
  directory or to read the form (\<open>Some message\<close>), the identifiers \<open>uuidv4\<close> draws, the engine's parser of date strings, the file
  system before the request and a failure of \<open>writeFileSync\<close> on a path (\<open>Some message\<close> when
  it throws), and the clock, which is also the modification time of a file just written.
\<close>

record UploadedFile =
  file_name :: string
  file_type :: string
  file_size :: nat

record upload_env =
  setup_error :: "string option"
  up_uuidv4 :: "nat \<Rightarrow> string"
  up_parse :: "string \<Rightarrow> Date"
  up_fs :: "string \<rightharpoonup> int"
  write_error :: "string \<Rightarrow> string option"
  up_now :: int

datatype upload_response =
  Uploaded "AudioFile list" "string list"
| Upload_400 string
| Upload_500 string

definition fs_error_message :: "fs_error \<Rightarrow> string" where
  "fs_error_message e = (case e of ENOENT p \<Rightarrow> ''ENOENT: no such file or directory, stat '' @ p)"

text \<open>
  The loop over the files. The saved path is the upload directory, a slash and the saved
  name, which is what \<open>path.join\<close> gives for a name without a slash. It returns the stores after each \<open>addAudioFile\<close>, the files saved,
  the errors collected, and the message of what was thrown, if anything was. The file system
  changes with every file written.
\<close>

fun upload_loop ::
  "upload_env \<Rightarrow> UploadedFile list \<Rightarrow> (string \<rightharpoonup> int) \<Rightarrow> StoreData \<Rightarrow> AudioFile list \<Rightarrow> string list
     \<Rightarrow> StoreData list \<times> AudioFile list \<times> string list \<times> string option" where
  "upload_loop env [] fs s savedFiles errors = ([], savedFiles, errors, None)"
| "upload_loop env (f # rest) fs s savedFiles errors =
     (if file_name f = [] then upload_loop env rest fs s savedFiles errors
      else
        (let mime = (if file_type f = [] then ''audio/mpeg'' else file_type f)
         in if \<not> isAllowedAudioType mime (file_name f)
            then upload_loop env rest fs s savedFiles
                   (errors @ [file_name f @ '': unsupported file type ('' @ mime @ '')''])
            else
              (let i = up_uuidv4 env (length savedFiles);
                   ext = (if extname (file_name f) = [] then ''.audio'' else extname (file_name f));
                   path = getUploadDir @ ''/'' @ i @ ext
               in case write_error env path of
                    Some message \<Rightarrow> ([], savedFiles, errors, Some message)
                  | None \<Rightarrow>
                      (let fs' = fs(path \<mapsto> up_now env)
                       in case getRecordedAt (up_parse env) fs' path (file_name f) of
                            Inl e \<Rightarrow> ([], savedFiles, errors, Some (fs_error_message e))
                          | Inr InvalidDate \<Rightarrow> ([], savedFiles, errors, Some ''Invalid time value'')
                          | Inr (Date t) \<Rightarrow>
                              (let audioFile =
                                     \<lparr>af_id = i, originalName = file_name f, savedPath = path,
                                      mimeType = mime, af_size = file_size f, recordedAt = t,
                                      uploadedAt = up_now env, af_status = st_uploaded,
                                      af_errorMessage = None\<rparr>;
                                   s' = addAudioFile audioFile s
                               in case upload_loop env rest fs' s' (savedFiles @ [audioFile])
                                         errors of
                                    (states, r) \<Rightarrow> (s' # states, r))))))"

definition upload_POST_states ::
  "upload_env \<Rightarrow> UploadedFile list \<Rightarrow> StoreData \<Rightarrow> StoreData list \<times> upload_response" where
  \<comment> \<open>the stores the request passes through, and its response\<close>
  "upload_POST_states env files s =
     (case setup_error env of
        Some message \<Rightarrow> ([], Upload_500 message)
      | None \<Rightarrow>
          if files = [] then ([], Upload_400 ''No files provided'')
          else
            (case upload_loop env files (up_fs env) s [] [] of
               (states, savedFiles, errors, Some message) \<Rightarrow> (states, Upload_500 message)
             | (states, savedFiles, errors, None) \<Rightarrow>
                 (let s' = last (s # states);
                      n = length (getAllAudioFiles s')
                  in (states
                      @ [updateStatus
                           (no_status_updates
                              \<lparr>p_totalFiles := Some n,
                               p_phase := Some (if 0 < n then ph_uploading else ph_idle)\<rparr>) s'],
                      Uploaded savedFiles errors))))"

definition upload_POST :: "upload_env \<Rightarrow> UploadedFile list \<Rightarrow> StoreData \<Rightarrow> StoreData \<times> upload_response" where
  "upload_POST env files s =
     (case upload_POST_states env files s of (states, response) \<Rightarrow> (last (s # states), response))"

definition upload_DELETE :: "StoreData \<Rightarrow> StoreData" where
  \<comment> \<open>the files are unlinked, errors ignored, and the store is reset\<close>
  "upload_DELETE s = reset s"

section \<open>\<open>POST /api/generate-podcast\<close>\<close>

text \<open>
  The body of the request is \<open>None\<close> when \<open>request.json()\<close> throws, else the two fields, an
  empty string for a field that is missing. \<open>generatePodcastScript\<close> is the call of the
  generation service, \<open>Inl message\<close> when it throws.
\<close>

record podcast_env =
  generatePodcastScript ::
    "Lecture \<Rightarrow> AudioFile list \<Rightarrow> string \<Rightarrow> PodcastFormat \<Rightarrow> string + string \<times> string \<times> string"
  pod_uuidv4 :: string
  pod_now :: int

datatype podcast_response =
  Podcast_ok PodcastScript
| Podcast_400 string
| Podcast_404 string
| Podcast_500 string

definition parse_format :: "string \<Rightarrow> PodcastFormat option" where
  \<comment> \<open>\<open>validFormats.includes(format)\<close>\<close>
  "parse_format f =
     (if f = ''qa'' then Some qa
      else if f = ''narrative'' then Some narrative
      else if f = ''discussion'' then Some discussion
      else None)"

definition generate_POST ::
  "podcast_env \<Rightarrow> (string \<times> string) option \<Rightarrow> StoreData \<Rightarrow> StoreData \<times> podcast_response" where
  "generate_POST env body s =
     (case body of
        None \<Rightarrow> (s, Podcast_500 ''Unexpected end of JSON input'')
      | Some (lectureId, fmt) \<Rightarrow>
          if lectureId = [] \<or> fmt = [] then (s, Podcast_400 ''lectureId and format are required'')
          else
            (case parse_format fmt of
               None \<Rightarrow> (s, Podcast_400 ''format must be one of: qa, narrative, discussion'')
             | Some format \<Rightarrow>
                 (case getLecture s lectureId of
                    None \<Rightarrow> (s, Podcast_404 ''Lecture not found'')
                  | Some lecture \<Rightarrow>
                      (let files = List.map_filter (getAudioFile s) (audioFileIds lecture)
                       in case generatePodcastScript env lecture files (fullTranscript lecture)
                                 format of
                            Inl message \<Rightarrow> (s, Podcast_500 message)
                          | Inr (t, d, body_text) \<Rightarrow>
                              (let script =
                                     \<lparr>ps_id = pod_uuidv4 env, ps_lectureId = lectureId,
                                      ps_format = format, ps_title = t, ps_description = d,
                                      ps_script = body_text, ps_generatedAt = pod_now env\<rparr>
                               in (addPodcastScript script s, Podcast_ok script))))))"

section \<open>The stores a sequence of requests passes through\<close>

text \<open>
  The lifecycle of a recording is \<open>uploaded\<close>, then \<open>transcribing\<close>, then \<open>transcribed\<close> or
  \<open>error\<close>. \<open>forward a b\<close> holds when \<open>b\<close> is \<open>a\<close> or comes later on this line.
\<close>

fun forward :: "file_status \<Rightarrow> file_status \<Rightarrow> bool" where
  "forward st_uploaded b = True"
| "forward st_transcribing b = (b \<noteq> st_uploaded)"
| "forward st_transcribed b = (b = st_transcribed)"
| "forward st_error b = (b = st_error)"

definition statuses_forward :: "StoreData \<Rightarrow> StoreData \<Rightarrow> bool" where
  \<comment> \<open>every recording of the first store is in the second, with a status that has not gone
      back\<close>
  "statuses_forward s s' \<longleftrightarrow>
     (\<forall>i f. getAudioFile s i = Some f \<longrightarrow>
        (\<exists>g. getAudioFile s' i = Some g \<and> forward (af_status f) (af_status g)))"

definition lifecycle_step :: "StoreData \<Rightarrow> StoreData \<Rightarrow> bool" where
  \<comment> \<open>from one store to the next: the statuses have not gone back, or the second store is the
      one the full reset leaves, which holds no recording\<close>
  "lifecycle_step s s' \<longleftrightarrow> statuses_forward s s' \<or> s' = createStore"

definition store_ok :: "StoreData \<Rightarrow> bool" where
  \<comment> \<open>what a \<open>Map\<close> filled by \<open>addAudioFile\<close> satisfies: no key twice, and every recording
      under its own \<open>id\<close>\<close>
  "store_ok s \<longleftrightarrow>
     distinct (map fst (audioFiles s)) \<and> list_all (\<lambda>(k, f). af_id f = k) (audioFiles s)"

definition absent_or_uploaded :: "StoreData \<Rightarrow> string \<Rightarrow> bool" where
  \<comment> \<open>the store holds no recording under the identifier, or one that is \<open>uploaded\<close>\<close>
  "absent_or_uploaded s i \<longleftrightarrow>
     (case getAudioFile s i of None \<Rightarrow> True | Some g \<Rightarrow> af_status g = st_uploaded)"

datatype request =
  Upload upload_env "UploadedFile list"
| Transcribe "string \<Rightarrow> string \<Rightarrow> string \<Rightarrow> string + Transcription" "string list option"
| Process process_env
| GeneratePodcast podcast_env "(string \<times> string) option"
| Reset

fun request_states :: "request \<Rightarrow> StoreData \<Rightarrow> StoreData list" where
  \<comment> \<open>a grouping request and a generation request write no recording; the store they end with
      stands for them\<close>
  "request_states (Upload env files) s = fst (upload_POST_states env files s)"
| "request_states (Transcribe transcribeAudioFile fileIds) s =
     transcribe_POST_states transcribeAudioFile fileIds s"
| "request_states (Process env) s = [fst (process_POST env s)]"
| "request_states (GeneratePodcast env body) s = [fst (generate_POST env body s)]"
| "request_states Reset s = [upload_DELETE s]"

fun pipeline_states :: "request list \<Rightarrow> StoreData \<Rightarrow> StoreData list" where
  "pipeline_states [] s = []"
| "pipeline_states (r # rs) s =
     (let states = request_states r s
      in states @ pipeline_states rs (last (s # states)))"

fun selects_uploaded :: "request \<Rightarrow> StoreData \<Rightarrow> bool" where
  \<comment> \<open>a transcription request, met with this store, selects only recordings whose status is
      \<open>uploaded\<close>; an upload draws no identifier that the store holds\<close>
  "selects_uploaded (Transcribe transcribeAudioFile fileIds) s =
     list_all (\<lambda>f. af_status f = st_uploaded) (toTranscribe fileIds s)"
| "selects_uploaded (Upload env files) s =
     list_all (\<lambda>n. getAudioFile s (up_uuidv4 env n) = None) [0..<length files]"
| "selects_uploaded r s = True"

fun all_select_uploaded :: "request list \<Rightarrow> StoreData \<Rightarrow> bool" where
  \<comment> \<open>every request of the sequence, met with the store its predecessors leave\<close>
  "all_select_uploaded [] s = True"
| "all_select_uploaded (r # rs) s =
     (selects_uploaded r s \<and> all_select_uploaded rs (last (s # request_states r s)))"

text \<open>
  What ECMAScript asks of the sort of a long array, as far as the results below use it: the
  result holds the elements of the array, and is in order when the comparator is consistent
  on them.
\<close>

definition consistent_on :: "('a \<Rightarrow> 'a \<Rightarrow> int) \<Rightarrow> 'a set \<Rightarrow> bool" where
  "consistent_on cmp A \<longleftrightarrow>
     (\<forall>a \<in> A. \<forall>b \<in> A. (cmp a b < 0) = (0 < cmp b a))
     \<and> (\<forall>a \<in> A. \<forall>b \<in> A. \<forall>c \<in> A. cmp a b \<le> 0 \<and> cmp b c \<le> 0 \<longrightarrow> cmp a c \<le> 0)"

definition sorts_consistent :: "'a sort_long \<Rightarrow> bool" where
  "sorts_consistent long \<longleftrightarrow>
     (\<forall>cmp xs. mset (long cmp xs) = mset xs
        \<and> (consistent_on cmp (set xs) \<longrightarrow> sorted_wrt (\<lambda>x y. cmp x y \<le> 0) (long cmp xs)))"

section \<open>Example data\<close>

definition rec_a :: AudioFile where
  "rec_a =
     \<lparr>af_id = ''a'', originalName = ''02_intro.m4a'',
      savedPath = ''/tmp/crammer-uploads/a.m4a'', mimeType = ''audio/mp4'', af_size = 1000,
      recordedAt = 0, uploadedAt = 900000, af_status = st_transcribed,
      af_errorMessage = None\<rparr>"

definition rec_b :: AudioFile where
  "rec_b =
     \<lparr>af_id = ''b'', originalName = ''01_intro.m4a'',
      savedPath = ''/tmp/crammer-uploads/b.m4a'', mimeType = ''audio/mp4'', af_size = 1000,
      recordedAt = 120000, uploadedAt = 900000, af_status = st_transcribed,
      af_errorMessage = None\<rparr>"

definition rec_c :: AudioFile where
  "rec_c =
     \<lparr>af_id = ''c'', originalName = ''01_outro.m4a'',
      savedPath = ''/tmp/crammer-uploads/c.m4a'', mimeType = ''audio/mp4'', af_size = 1000,
      recordedAt = 600000, uploadedAt = 900000, af_status = st_uploaded,
      af_errorMessage = None\<rparr>"

definition store_c :: StoreData where
  "store_c = addAudioFile rec_c createStore"

definition store_ac :: StoreData where
  "store_ac = addAudioFile rec_c (addAudioFile rec_a createStore)"

definition lecture_numbered :: "string \<Rightarrow> number \<Rightarrow> Lecture" where
  "lecture_numbered i n =
     \<lparr>lec_id = i, lectureNumber = n, title = ''Cell biology'',
      summary = ''Membranes and transport.'', keyTopics = [''membrane''],
      audioFileIds = [''a''], fullTranscript = ''[02_intro.m4a]'', createdAt = 0\<rparr>"

definition old_lecture :: Lecture where
  "old_lecture = lecture_numbered ''L1'' (Num 1)"

definition store_lec :: StoreData where
  "store_lec = addLecture old_lecture (addAudioFile rec_a createStore)"

definition store_unnumbered :: StoreData where
  \<comment> \<open>three lectures, the second stored without a number\<close>
  "store_unnumbered =
     addLecture (lecture_numbered ''L3'' (Num 1))
       (addLecture (lecture_numbered ''L2'' NaN)
          (addLecture (lecture_numbered ''L1'' (Num 2)) createStore))"

definition store_numbered :: StoreData where
  "store_numbered =
     addLecture (lecture_numbered ''L3'' (Num 1))
       (addLecture (lecture_numbered ''L2'' (Num 3))
          (addLecture (lecture_numbered ''L1'' (Num 2)) createStore))"

definition service_down :: "string \<Rightarrow> string \<Rightarrow> string \<Rightarrow> string + Transcription" where
  "service_down path file_id mime = Inl ''No transcription result returned from Deepgram''"

definition env_no_key :: process_env where
  "env_no_key =
     \<lparr>sort_long = sort_short,
      inferLectures = (\<lambda>inputs. Inl ''ANTHROPIC_API_KEY is not set in environment variables''),
      uuidv4 = (\<lambda>n. if n = 0 then ''u0'' else ''u1''),
      header = (\<lambda>name t. ''['' @ name @ '']''),
      now = 1000000\<rparr>"

definition env_bad_group :: process_env where
  "env_bad_group =
     \<lparr>sort_long = sort_short,
      inferLectures =
        (\<lambda>inputs. Inr (Groups
           [Group \<lparr>g_lectureNumber = Num 1, g_title = ''Introduction'',
                   g_summary = ''Overview.'', g_keyTopics = [], g_audioFileIds = [''a'']\<rparr>,
            BadGroup ''Cannot read properties of undefined''])),
      uuidv4 = (\<lambda>n. if n = 0 then ''u0'' else ''u1''),
      header = (\<lambda>name t. ''['' @ name @ '']''),
      now = 1000000\<rparr>"

definition env_upload :: upload_env where
  "env_upload =
     \<lparr>setup_error = None,
      up_uuidv4 = (\<lambda>n. if n = 0 then ''d'' else ''e''),
      up_parse = (\<lambda>text. InvalidDate),
      up_fs = Map.empty,
      write_error = (\<lambda>path. None),
      up_now = 1700000000000\<rparr>"

definition files_two :: "UploadedFile list" where
  "files_two =
     [\<lparr>file_name = ''2024-01-15_lecture.m4a'', file_type = ''audio/mp4'', file_size = 10\<rparr>,
      \<lparr>file_name = ''notes.txt'', file_type = ''text/plain'', file_size = 3\<rparr>]"

definition env_podcast :: podcast_env where
  "env_podcast =
     \<lparr>generatePodcastScript = (\<lambda>lecture files transcript format. Inl ''overloaded''),
      pod_uuidv4 = ''p0'',
      pod_now = 1700000000000\<rparr>"

section \<open>Properties of numbers\<close>

text \<open>
  Rounding to a double keeps the sign, so the sign of a difference tells which of two
  numbers is the smaller.
\<close>

lemma bit_length_bounds:
  "0 < m \<Longrightarrow> 2 ^ (bit_length m - 1) \<le> m \<and> m < 2 ^ bit_length m"
proof (induction m rule: bit_length.induct)
  case (1 n)
  show ?case
  proof (cases "n div 2 = 0")
    case True
    with "1.prems" have "n = 1" by presburger
    then show ?thesis
      by (simp add: bit_length.simps[of 1] bit_length.simps[of 0])
  next
    case False
    with "1.prems" have pos: "0 < n div 2" by presburger
    from "1.IH" "1.prems" pos
    have ih: "2 ^ (bit_length (n div 2) - 1) \<le> n div 2" "n div 2 < 2 ^ bit_length (n div 2)"
      by simp_all
    have bl: "bit_length n = Suc (bit_length (n div 2))"
      using "1.prems" by (subst bit_length.simps) simp
    have "0 < bit_length (n div 2)"
      using pos by (subst bit_length.simps) simp
    then obtain k where k: "bit_length (n div 2) = Suc k" by (cases "bit_length (n div 2)") auto
    from ih have "2 * 2 ^ k \<le> n" "n < 2 * 2 ^ Suc k"
      unfolding k by simp_all
    then show ?thesis by (simp add: bl k)
  qed
qed

lemma round_to_double_pos:
  assumes "0 < d"
  shows "0 < to_order (round_to_double d)"
proof (cases "\<bar>d\<bar> < 2 ^ 53")
  case True
  with assms show ?thesis by (simp add: round_to_double_def to_order_def)
next
  case False
  have abs: "\<bar>d\<bar> = d" using assms by simp
  define e where "e = bit_length d - 53"
  define q where "q = d div 2 ^ e"
  have "e \<le> bit_length d - 1" by (simp add: e_def)
  then have "(2::int) ^ e \<le> 2 ^ (bit_length d - 1)"
    by (intro power_increasing) simp_all
  also have "\<dots> \<le> d" using bit_length_bounds[of d] assms by simp
  finally have "0 < d div 2 ^ e"
    by (simp add: pos_imp_zdiv_pos_iff)
  then have "1 \<le> q"
    unfolding q_def by simp
  then have "0 < q * 2 ^ e" "0 < (q + 1) * 2 ^ e" by simp_all
  with False assms show ?thesis
    unfolding round_to_double_def Let_def abs e_def [symmetric] q_def [symmetric]
    by (simp add: to_order_def)
qed

lemma round_to_double_neg: "round_to_double (- d) = (case round_to_double d of
    Num v \<Rightarrow> Num (- v) | PosInf \<Rightarrow> NegInf | NegInf \<Rightarrow> PosInf | NaN \<Rightarrow> NaN)"
proof (cases "d = 0")
  case True then show ?thesis by (simp add: round_to_double_def)
next
  case False
  then show ?thesis
    by (cases "d < 0") (auto simp: round_to_double_def Let_def)
qed

lemma to_order_round_neg: "to_order (round_to_double (- d)) = - to_order (round_to_double d)"
  by (simp add: round_to_double_neg to_order_def split: number.splits)

lemma to_order_round_sign:
  "(to_order (round_to_double d) < 0) = (d < 0)" "(0 < to_order (round_to_double d)) = (0 < d)"
proof -
  have z: "to_order (round_to_double 0) = 0" by (simp add: round_to_double_def to_order_def)
  have n: "to_order (round_to_double d) < 0" if "d < 0"
    using round_to_double_pos[of "- d"] that to_order_round_neg[of d] by simp
  show "(to_order (round_to_double d) < 0) = (d < 0)"
    using n round_to_double_pos[of d] z by (cases "d < 0"; cases "d = 0") force+
  show "(0 < to_order (round_to_double d)) = (0 < d)"
    using n round_to_double_pos[of d] z by (cases "d < 0"; cases "d = 0") force+
qed

lemma to_order_num_sub_less: "(to_order (num_sub x y) < 0) = num_less x y"
proof (cases x; cases y)
  fix a b assume "x = Num a" "y = Num b"
  then show ?thesis
    using to_order_round_sign(1)[of "a - b"] by (simp add: num_sub_def num_less_def)
qed (simp_all add: num_sub_def num_less_def to_order_def)

lemma to_order_num_sub_greater: "(0 < to_order (num_sub x y)) = num_less y x"
proof (cases x; cases y)
  fix a b assume "x = Num a" "y = Num b"
  then show ?thesis
    using to_order_round_sign(2)[of "a - b"] by (simp add: num_sub_def num_less_def)
qed (simp_all add: num_sub_def num_less_def to_order_def)

lemma to_order_num_sub_antisym: "to_order (num_sub y x) = - to_order (num_sub x y)"
proof (cases x; cases y)
  fix a b assume "x = Num a" "y = Num b"
  then show ?thesis
    using to_order_round_neg[of "a - b"] by (simp add: num_sub_def)
qed (simp_all add: num_sub_def to_order_def)

lemma round_to_double_large:
  assumes "2 ^ 53 \<le> \<bar>d\<bar>"
  shows "\<not> num_less (num_abs (round_to_double d)) (Num (2 ^ 52))"
proof -
  define m where "m = \<bar>d\<bar>"
  define e where "e = bit_length m - 53"
  define q where "q = m div 2 ^ e"
  have m: "0 < m" "2 ^ 53 \<le> m" using assms by (simp_all add: m_def)
  from bit_length_bounds[OF m(1)] have b: "2 ^ (bit_length m - 1) \<le> m" "m < 2 ^ bit_length m"
    by simp_all
  have "(2::int) ^ 53 < 2 ^ bit_length m" using m(2) b(2) by simp
  then have bl: "53 < bit_length m"
    using power_less_imp_less_exp[of "2::int" 53 "bit_length m"] by simp
  then have split: "bit_length m - 1 = 52 + e" by (simp add: e_def)
  have "(2::int) ^ 52 * 2 ^ e \<le> m" using b(1) unfolding split by (simp add: power_add)
  then have "(2 ^ 52 * 2 ^ e) div 2 ^ e \<le> m div (2::int) ^ e"
    by (intro zdiv_mono1) simp_all
  then have "2 ^ 52 \<le> q"
    unfolding q_def by simp
  moreover have "(1::int) \<le> 2 ^ e" by simp
  ultimately have "2 ^ 52 * 1 \<le> q * 2 ^ e" "2 ^ 52 * 1 \<le> (q + 1) * 2 ^ e"
    by (intro mult_mono; simp)+
  then show ?thesis
    using assms
    by (auto simp: round_to_double_def Let_def num_abs_def num_less_def m_def [symmetric]
        e_def [symmetric] q_def [symmetric])
qed

section \<open>Properties of the sort\<close>

text \<open>
  Two facts carry the results on the sort of a short array. For a comparator that never
  calls both \<open>x\<close> before \<open>y\<close> and \<open>y\<close> before \<open>x\<close>, the result has every neighbour in
  order; and an array whose neighbours are all in order is returned as it is. For a
  consistent comparator the result is sorted.
\<close>

declare find_insertion_point.simps [simp del]

lemma find_insertion_point_stop:
  "\<not> left < right \<Longrightarrow> find_insertion_point cmp p xs left right = left"
  by (subst find_insertion_point.simps) simp

lemma find_insertion_point_le:
  "left \<le> right \<Longrightarrow> left \<le> find_insertion_point cmp p xs left right
     \<and> find_insertion_point cmp p xs left right \<le> right"
proof (induction cmp p xs left right rule: find_insertion_point.induct)
  case (1 cmp pivot xs left right)
  show ?case
  proof (cases "left < right")
    case False
    with "1.prems" show ?thesis by (simp add: find_insertion_point_stop)
  next
    case True
    define mid where "mid = left + (right - left) div 2"
    have m: "left \<le> mid" "mid < right" using True by (auto simp: mid_def)
    show ?thesis
    proof (cases "cmp pivot (xs ! mid) < 0")
      case lt: True
      have "left \<le> find_insertion_point cmp pivot xs left mid
          \<and> find_insertion_point cmp pivot xs left mid \<le> mid"
        using "1.IH"(1)[OF True mid_def lt] m by simp
      then show ?thesis using True lt m
        by (subst (1 2) find_insertion_point.simps) (simp add: Let_def mid_def [symmetric])
    next
      case ge: False
      have "mid + 1 \<le> find_insertion_point cmp pivot xs (mid + 1) right
          \<and> find_insertion_point cmp pivot xs (mid + 1) right \<le> right"
        using "1.IH"(2)[OF True mid_def ge] m by simp
      then show ?thesis using True ge m
        by (subst (1 2) find_insertion_point.simps) (simp add: Let_def mid_def [symmetric])
    qed
  qed
qed

lemma find_insertion_point_bounds:
  "left \<le> right \<Longrightarrow>
   (left = lo \<or> 0 \<le> cmp p (xs ! (left - 1))) \<Longrightarrow>
   (right = hi \<or> cmp p (xs ! right) < 0) \<Longrightarrow>
   (find_insertion_point cmp p xs left right = lo
      \<or> 0 \<le> cmp p (xs ! (find_insertion_point cmp p xs left right - 1)))
   \<and> (find_insertion_point cmp p xs left right = hi
      \<or> cmp p (xs ! find_insertion_point cmp p xs left right) < 0)"
proof (induction cmp p xs left right rule: find_insertion_point.induct)
  case (1 cmp pivot xs left right)
  show ?case
  proof (cases "left < right")
    case False
    with "1.prems" have "left = right" by simp
    with "1.prems" show ?thesis by (simp add: find_insertion_point_stop)
  next
    case True
    define mid where "mid = left + (right - left) div 2"
    have m: "left \<le> mid" "mid < right" using True by (auto simp: mid_def)
    show ?thesis
    proof (cases "cmp pivot (xs ! mid) < 0")
      case lt: True
      have eq: "find_insertion_point cmp pivot xs left right = find_insertion_point cmp pivot xs left mid"
        using True lt by (subst find_insertion_point.simps) (simp add: Let_def mid_def [symmetric])
      show ?thesis unfolding eq
        using "1.IH"(1)[OF True mid_def lt] m "1.prems" lt by simp
    next
      case ge: False
      have eq: "find_insertion_point cmp pivot xs left right = find_insertion_point cmp pivot xs (mid + 1) right"
        using True ge by (subst find_insertion_point.simps) (simp add: Let_def mid_def [symmetric])
      show ?thesis unfolding eq
        using "1.IH"(2)[OF True mid_def ge] m "1.prems" ge by simp
    qed
  qed
qed

lemma successively_take: "successively P xs \<Longrightarrow> successively P (take k xs)"
  by (metis append_take_drop_id successively_append_iff)

lemma successively_drop: "successively P xs \<Longrightarrow> successively P (drop k xs)"
  by (metis append_take_drop_id successively_append_iff)

lemma successively_insert:
  assumes "successively P xs" "k \<le> length xs"
    and "k = 0 \<or> P (xs ! (k - 1)) p"
    and "k = length xs \<or> P p (xs ! k)"
  shows "successively P (take k xs @ p # drop k xs)"
proof -
  have a: "successively P (p # drop k xs)"
  proof (cases "k = length xs")
    case True then show ?thesis by simp
  next
    case False
    then have "k < length xs" using assms(2) by simp
    then have "hd (drop k xs) = xs ! k" by (simp add: hd_drop_conv_nth)
    with False assms(4) successively_drop[OF assms(1), of k] show ?thesis
      by (simp add: successively_Cons)
  qed
  have b: "take k xs = [] \<or> P (last (take k xs)) p"
  proof (cases "k = 0")
    case True then show ?thesis by simp
  next
    case False
    then have "take k xs \<noteq> []" "length (take k xs) = k"
      using assms(2) by auto
    then have "last (take k xs) = xs ! (k - 1)"
      using False by (simp add: last_conv_nth)
    with False assms(3) show ?thesis by simp
  qed
  show ?thesis
    using a b successively_take[OF assms(1), of k]
    by (auto simp: successively_append_iff)
qed

lemma find_insertion_point_place:
  assumes "successively (\<lambda>x y. 0 \<le> cmp y x) xs"
    and anti: "\<And>x y. x \<in> A \<Longrightarrow> y \<in> A \<Longrightarrow> cmp x y < 0 \<Longrightarrow> 0 \<le> cmp y x"
    and "p \<in> A" "set xs \<subseteq> A"
  shows "successively (\<lambda>x y. 0 \<le> cmp y x)
           (take (find_insertion_point cmp p xs 0 (length xs)) xs
              @ p # drop (find_insertion_point cmp p xs 0 (length xs)) xs)"
proof -
  let ?k = "find_insertion_point cmp p xs 0 (length xs)"
  have le: "?k \<le> length xs"
    using find_insertion_point_le[of 0 "length xs" cmp p xs] by simp
  have b: "(?k = 0 \<or> 0 \<le> cmp p (xs ! (?k - 1))) \<and> (?k = length xs \<or> cmp p (xs ! ?k) < 0)"
    by (rule find_insertion_point_bounds) simp_all
  have r: "?k = length xs \<or> 0 \<le> cmp (xs ! ?k) p"
  proof (cases "?k = length xs")
    case False
    with le have "xs ! ?k \<in> A" using assms(4) by (auto simp: subset_iff)
    with b False anti[OF assms(3)] show ?thesis by blast
  qed simp
  from b have l: "?k = 0 \<or> 0 \<le> cmp p (xs ! (?k - 1))" by blast
  show ?thesis
    by (rule successively_insert[OF assms(1) le l r])
qed

lemma BinaryInsertionSort_successively:
  assumes anti: "\<And>x y. x \<in> A \<Longrightarrow> y \<in> A \<Longrightarrow> cmp x y < 0 \<Longrightarrow> 0 \<le> cmp y x"
  shows "successively (\<lambda>x y. 0 \<le> cmp y x) placed \<Longrightarrow> set placed \<subseteq> A \<Longrightarrow> set rest \<subseteq> A \<Longrightarrow>
         successively (\<lambda>x y. 0 \<le> cmp y x) (BinaryInsertionSort cmp placed rest)"
proof (induction rest arbitrary: placed)
  case Nil
  then show ?case by simp
next
  case (Cons pivot rest)
  let ?k = "find_insertion_point cmp pivot placed 0 (length placed)"
  have p: "pivot \<in> A" and r: "set rest \<subseteq> A" using Cons.prems(3) by simp_all
  have "set (take ?k placed) \<subseteq> A" "set (drop ?k placed) \<subseteq> A"
    using Cons.prems(2) by (auto dest: in_set_takeD in_set_dropD)
  then have sub: "set (take ?k placed @ pivot # drop ?k placed) \<subseteq> A"
    using p by simp
  show ?case
    using Cons.IH[OF find_insertion_point_place[OF Cons.prems(1) anti p Cons.prems(2)] sub r]
    by (simp add: Let_def)
qed

lemma BinaryInsertionSort_mset:
  "mset (BinaryInsertionSort cmp placed rest) = mset placed + mset rest"
proof (induction rest arbitrary: placed)
  case Nil
  then show ?case by simp
next
  case (Cons pivot rest)
  have "mset (take k placed @ pivot # drop k placed) = mset placed + {#pivot#}" for k
    by (metis append_take_drop_id mset.simps(2) mset_append union_mset_add_mset_right add.right_neutral)
  with Cons.IH show ?case by (simp add: Let_def)
qed

lemma count_run_le: "count_run cmp d prev xs \<le> length xs"
  by (induction xs arbitrary: prev) (auto simp: Let_def)

lemma count_run_ascending:
  "successively (\<lambda>x y. 0 \<le> cmp y x) (prev # take (count_run cmp False prev xs) xs)"
  by (induction xs arbitrary: prev) (auto simp: Let_def)

lemma count_run_descending:
  "successively (\<lambda>x y. cmp y x < 0) (prev # take (count_run cmp True prev xs) xs)"
  by (induction xs arbitrary: prev) (auto simp: Let_def)

lemma count_run_all:
  "successively (\<lambda>x y. 0 \<le> cmp y x) (prev # xs) \<Longrightarrow> count_run cmp False prev xs = length xs"
  by (induction xs arbitrary: prev) (auto simp: Let_def)

lemma CountAndMakeRun_mset:
  "CountAndMakeRun cmp xs = (run, rest) \<Longrightarrow> mset run + mset rest = mset xs"
proof -
  have "mset (take n ys) + mset (drop n ys) = mset ys" for n and ys :: "'a list"
    by (metis append_take_drop_id mset_append)
  moreover have "mset (rev (take n ys)) + mset (drop n ys) = mset ys" for n and ys :: "'a list"
    by (metis append_take_drop_id mset_append mset_rev)
  ultimately show "CountAndMakeRun cmp xs = (run, rest) \<Longrightarrow> mset run + mset rest = mset xs"
    unfolding CountAndMakeRun_def
    by (auto simp: Let_def split: list.splits if_splits simp del: mset_rev take_Suc_Cons drop_Suc_Cons)
qed

lemma successively_mono_set:
  "successively P xs \<Longrightarrow> (\<And>x y. x \<in> set xs \<Longrightarrow> y \<in> set xs \<Longrightarrow> P x y \<Longrightarrow> Q x y)
     \<Longrightarrow> successively Q xs"
  by (induction P xs rule: successively.induct) auto

lemma CountAndMakeRun_set:
  "CountAndMakeRun cmp xs = (run, rest) \<Longrightarrow> set run \<union> set rest = set xs"
proof -
  assume "CountAndMakeRun cmp xs = (run, rest)"
  then have "set_mset (mset run + mset rest) = set_mset (mset xs)"
    using CountAndMakeRun_mset[of cmp xs run rest] by simp
  then show ?thesis by simp
qed

lemma CountAndMakeRun_successively:
  assumes anti: "\<And>x y. x \<in> A \<Longrightarrow> y \<in> A \<Longrightarrow> cmp x y < 0 \<Longrightarrow> 0 \<le> cmp y x"
    and "CountAndMakeRun cmp xs = (run, rest)" "set xs \<subseteq> A"
  shows "successively (\<lambda>x y. 0 \<le> cmp y x) run"
proof (cases xs)
  case Nil
  with assms(2) show ?thesis by (simp add: CountAndMakeRun_def)
next
  case (Cons x xs')
  show ?thesis
  proof (cases xs')
    case Nil
    with Cons assms(2) show ?thesis by (auto simp: CountAndMakeRun_def)
  next
    case (Cons y ys)
    show ?thesis
    proof (cases "cmp y x < 0")
      case True
      let ?r = "x # y # take (count_run cmp True y ys) ys"
      have sub: "set ?r \<subseteq> A"
        using assms(3) \<open>xs = x # xs'\<close> Cons by (auto dest: in_set_takeD)
      have "successively (\<lambda>a b. cmp b a < 0) ?r"
        using True count_run_descending[of cmp y ys] by simp
      then have "successively (\<lambda>a b. 0 \<le> cmp a b) ?r"
        by (rule successively_mono_set) (use anti sub in blast)
      then have "successively (\<lambda>a b. 0 \<le> cmp b a) (rev ?r)"
        unfolding successively_rev .
      with True Cons \<open>xs = x # xs'\<close> assms(2) show ?thesis
        by (auto simp: CountAndMakeRun_def Let_def)
    next
      case False
      have "successively (\<lambda>a b. 0 \<le> cmp b a) (x # y # take (count_run cmp False y ys) ys)"
        using False count_run_ascending[of cmp y ys] by simp
      with False Cons \<open>xs = x # xs'\<close> assms(2) show ?thesis
        by (auto simp: CountAndMakeRun_def Let_def)
    qed
  qed
qed

lemma CountAndMakeRun_fixed:
  assumes "successively (\<lambda>x y. 0 \<le> cmp y x) xs"
  shows "CountAndMakeRun cmp xs = (xs, [])"
proof (cases xs)
  case Nil
  then show ?thesis by (simp add: CountAndMakeRun_def)
next
  case (Cons x xs')
  show ?thesis
  proof (cases xs')
    case Nil
    with Cons show ?thesis by (simp add: CountAndMakeRun_def)
  next
    case (Cons y ys)
    with assms \<open>xs = x # xs'\<close> have "0 \<le> cmp y x" "successively (\<lambda>x y. 0 \<le> cmp y x) (y # ys)"
      by simp_all
    then show ?thesis
      using Cons \<open>xs = x # xs'\<close> count_run_all[of cmp y ys]
      by (simp add: CountAndMakeRun_def Let_def)
  qed
qed

lemma sort_short_mset: "mset (sort_short cmp xs) = mset xs"
  by (auto simp: sort_short_def BinaryInsertionSort_mset CountAndMakeRun_mset split: prod.splits)

lemma sort_short_successively:
  assumes anti: "\<And>x y. x \<in> A \<Longrightarrow> y \<in> A \<Longrightarrow> cmp x y < 0 \<Longrightarrow> 0 \<le> cmp y x"
    and "set xs \<subseteq> A"
  shows "successively (\<lambda>x y. 0 \<le> cmp y x) (sort_short cmp xs)"
proof -
  obtain run rest where c: "CountAndMakeRun cmp xs = (run, rest)"
    by (cases "CountAndMakeRun cmp xs")
  from CountAndMakeRun_set[OF c] assms(2) have "set run \<subseteq> A" "set rest \<subseteq> A" by auto
  from BinaryInsertionSort_successively[OF anti CountAndMakeRun_successively[OF anti c assms(2)] this]
  show ?thesis by (simp add: sort_short_def c)
qed

lemma sort_short_fixed:
  "successively (\<lambda>x y. 0 \<le> cmp y x) xs \<Longrightarrow> sort_short cmp xs = xs"
  by (simp add: sort_short_def CountAndMakeRun_fixed)

lemma sort_short_pair:
  "sort_short cmp [a, b] = (if cmp b a < 0 then [b, a] else [a, b])"
  by (simp add: sort_short_def CountAndMakeRun_def Let_def)

lemma sort_short_sorted:
  assumes "consistent_on cmp (set xs)"
  shows "sorted_wrt (\<lambda>x y. cmp x y \<le> 0) (sort_short cmp xs)"
proof -
  define ys where "ys = sort_short cmp xs"
  have set: "set ys = set xs"
    using arg_cong[OF sort_short_mset[of cmp xs], of set_mset] by (simp add: ys_def)
  have c1: "\<forall>a \<in> set xs. \<forall>b \<in> set xs. (cmp a b < 0) = (0 < cmp b a)"
    using assms unfolding consistent_on_def by (rule conjunct1)
  have c2: "\<forall>a \<in> set xs. \<forall>b \<in> set xs. \<forall>c \<in> set xs. cmp a b \<le> 0 \<and> cmp b c \<le> 0 \<longrightarrow> cmp a c \<le> 0"
    using assms unfolding consistent_on_def by (rule conjunct2)
  have anti: "0 \<le> cmp y x" if "x \<in> set xs" "y \<in> set xs" "cmp x y < 0" for x y
    using c1[rule_format, OF that(1,2)] that(3) by linarith
  have sub: "set xs \<subseteq> set xs" by simp
  have "successively (\<lambda>x y. 0 \<le> cmp y x) (sort_short cmp xs)"
    using sort_short_successively[of "set xs" cmp xs, OF anti sub] by simp
  then have l0: "successively (\<lambda>x y. 0 \<le> cmp y x) ys" by (simp add: ys_def)
  have step: "cmp x y \<le> 0" if "x \<in> set ys" "y \<in> set ys" "0 \<le> cmp y x" for x y
  proof -
    from that have "y \<in> set xs" "x \<in> set xs" by (simp_all add: set)
    from c1[rule_format, OF this] that(3) show ?thesis by linarith
  qed
  have local: "successively (\<lambda>x y. cmp x y \<le> 0) ys"
    using successively_mono_set[of "\<lambda>x y. 0 \<le> cmp y x" ys "\<lambda>x y. cmp x y \<le> 0", OF l0 step]
    by simp
  have trans: "cmp x z \<le> 0"
    if "x \<in> set ys" "y \<in> set ys" "z \<in> set ys" "cmp x y \<le> 0" "cmp y z \<le> 0" for x y z
  proof -
    from that have "x \<in> set xs" "y \<in> set xs" "z \<in> set xs" by (simp_all add: set)
    from c2[rule_format, OF this] that(4,5) show ?thesis by blast
  qed
  have "successively (\<lambda>x y. cmp x y \<le> 0) ys = sorted_wrt (\<lambda>x y. cmp x y \<le> 0) ys"
    using successively_iff_sorted_wrt_strong[of ys "\<lambda>x y. cmp x y \<le> 0", OF trans] by simp
  with local show ?thesis by (simp add: ys_def)
qed

lemma sorts_consistent_sort_short: "sorts_consistent sort_short"
  unfolding sorts_consistent_def
  by (intro allI conjI impI sort_short_mset sort_short_sorted)

lemma length_sort_short: "length (sort_short cmp xs) = length xs"
  using arg_cong[OF sort_short_mset[of cmp xs], of size] by simp

section \<open>Evaluating the model\<close>

text \<open>
  The definitions that the simplifier unfolds to run the model on a concrete input.
\<close>

lemmas char_class_defs =
  is_digit_def is_space_def is_lower_letter_def is_upper_letter_def is_word_char_def
  is_separator_def is_date_separator_def is_comma_space_def is_letter_def
  toLowerCase_def toLowerCase_char_def digit_value_def digits_value_def parseInt_def
  round_to_double_def

lemmas path_defs = basename_def extname_def last_component_def

lemmas sequence_defs =
  parseSequenceFromFilename_def match_leading_def match_part_here_def
  match_trailing_here_def match_bare_def

lemmas date_defs =
  new_Date_def MakeDay_def TimeClip_def msPerDay_def DayFromYear_def InLeapYear_def
  DaysBeforeMonth_def

lemmas process_defs =
  process_POST_def catch_error_def process_inputs_def build_lecture_def order_recordings_def
  Array_sort_def sort_short_def CountAndMakeRun_def Array_join_def

lemmas store_defs =
  addAudioFile_def getAudioFile_def updateAudioFile_def getAllAudioFiles_def addTranscription_def
  getTranscription_def addLecture_def clearLectures_def updateStatus_def createStore_def
  Map_get_def Map_values_def merge_AudioFile_def merge_ProcessingStatus_def override_def
  no_updates_def no_status_updates_def

lemmas transcribe_defs =
  transcribe_POST_def toTranscribe_def mark_transcribing_def settle_def update_count_def
  all_done_def

section \<open>Facts about the chronological order and the order of the lectures\<close>

lemma num_less_abs_round:
  "num_less (num_abs (round_to_double d)) (Num 300000) = (\<bar>d\<bar> < 300000)"
proof (cases "\<bar>d\<bar> < 2 ^ 53")
  case True
  then show ?thesis by (simp add: round_to_double_def num_abs_def num_less_def)
next
  case False
  then have big: "2 ^ 53 \<le> \<bar>d\<bar>" by simp
  have "\<not> num_less x (Num 300000)" if "\<not> num_less x (Num (2 ^ 52))" for x
    using that by (cases x) (simp_all add: num_less_def)
  from this[OF round_to_double_large[OF big]] big show ?thesis by simp
qed

lemma num_sub_Num: "num_sub (Num a) (Num b) = round_to_double (a - b)"
  by (simp add: num_sub_def)

lemma compare_recordings_value:
  assumes "\<bar>recordedAt a\<bar> \<le> 8640000000000000" "\<bar>recordedAt b\<bar> \<le> 8640000000000000"
  shows "compare_recordings a b =
     (if \<bar>recordedAt a - recordedAt b\<bar> < 300000 then
        (case (parseSequenceFromFilename (originalName a),
               parseSequenceFromFilename (originalName b)) of
           (Some seqA, Some seqB) \<Rightarrow> num_sub seqA seqB
         | _ \<Rightarrow> round_to_double (recordedAt a - recordedAt b))
      else round_to_double (recordedAt a - recordedAt b))"
  using assms
  by (simp add: compare_recordings_def Date_getTime_def CLOSE_THRESHOLD_MS_def Let_def
      num_sub_Num num_less_abs_round split: option.splits)

lemma order_recordings_pair:
  "order_recordings long [a, b] =
     (if to_order (compare_recordings b a) < 0 then [b, a] else [a, b])"
  by (simp add: order_recordings_def Array_sort_def sort_short_pair)

lemma parseSequence_rec:
  "parseSequenceFromFilename ''02_intro.m4a'' = Some (Num 2)"
  "parseSequenceFromFilename ''01_intro.m4a'' = Some (Num 1)"
  "parseSequenceFromFilename ''01_outro.m4a'' = Some (Num 1)"
  by (simp_all add: sequence_defs path_defs char_class_defs)

lemma parseSequence_rounded:
  "parseSequenceFromFilename ''9007199254740993_a.m4a'' = Some (Num 9007199254740992)"
  "parseSequenceFromFilename ''9007199254740992_b.m4a'' = Some (Num 9007199254740992)"
  by code_simp+

lemma num_abs_round_neg: "num_abs (round_to_double (- d)) = num_abs (round_to_double d)"
  by (simp add: round_to_double_neg num_abs_def split: number.splits)

lemma num_abs_num_sub_sym: "num_abs (num_sub y x) = num_abs (num_sub x y)"
proof (cases x; cases y)
  fix a b assume "x = Num a" "y = Num b"
  then show ?thesis
    using num_abs_round_neg[of "a - b"] by (simp add: num_sub_Num)
qed (simp_all add: num_sub_def num_abs_def)

lemma compare_recordings_antisym:
  "to_order (compare_recordings b a) = - to_order (compare_recordings a b)"
proof -
  define ta where "ta = Date_getTime (recordedAt a)"
  define tb where "tb = Date_getTime (recordedAt b)"
  define sa where "sa = parseSequenceFromFilename (originalName a)"
  define sb where "sb = parseSequenceFromFilename (originalName b)"
  define near where "near = num_less (num_abs (num_sub ta tb)) CLOSE_THRESHOLD_MS"
  have ab: "compare_recordings a b =
      (if near then (case (sa, sb) of (Some x, Some y) \<Rightarrow> num_sub x y | _ \<Rightarrow> num_sub ta tb)
       else num_sub ta tb)"
    unfolding compare_recordings_def Let_def ta_def tb_def sa_def sb_def near_def
    by (simp split: option.splits)
  have ba: "compare_recordings b a =
      (if near then (case (sb, sa) of (Some y, Some x) \<Rightarrow> num_sub y x | _ \<Rightarrow> num_sub tb ta)
       else num_sub tb ta)"
    unfolding near_def num_abs_num_sub_sym[of tb ta, symmetric]
    unfolding compare_recordings_def Let_def ta_def tb_def sa_def sb_def
    by (simp split: option.splits)
  show ?thesis
  proof (cases near)
    case False
    then show ?thesis by (simp add: ab ba to_order_num_sub_antisym[of tb ta])
  next
    case True
    show ?thesis
    proof (cases sa)
      case None
      with True show ?thesis
        by (cases sb) (simp_all add: ab ba to_order_num_sub_antisym[of tb ta])
    next
      case (Some x)
      with True show ?thesis
        by (cases sb)
           (simp_all add: ab ba to_order_num_sub_antisym[of tb ta] to_order_num_sub_antisym[of _ x])
    qed
  qed
qed

lemma order_idempotent_below_64:
  assumes "length files < 64"
  shows "order_recordings long (order_recordings long files) = order_recordings long files"
proof -
  let ?cmp = "\<lambda>x y. to_order (compare_recordings x y)"
  have anti: "0 \<le> ?cmp y x" if "x \<in> UNIV" "y \<in> UNIV" "?cmp x y < 0" for x y
    using that(3) compare_recordings_antisym[of y x] by simp
  have "successively (\<lambda>x y. 0 \<le> ?cmp y x) (sort_short ?cmp files)"
    using sort_short_successively[of UNIV ?cmp files, OF anti] by simp
  from sort_short_fixed[OF this] assms show ?thesis
    by (simp add: order_recordings_def Array_sort_def length_sort_short)
qed

lemma num_le_trans: "num_le x y \<Longrightarrow> num_le y z \<Longrightarrow> num_le x z"
  by (cases x; cases y; cases z) (simp_all add: num_le_def num_less_def)

lemma lecture_comparator_consistent:
  assumes "\<forall>l \<in> A. lectureNumber l \<noteq> NaN"
  shows "consistent_on (\<lambda>a b. to_order (num_sub (lectureNumber a) (lectureNumber b))) A"
    and "\<forall>a \<in> A. \<forall>b \<in> A.
           (to_order (num_sub (lectureNumber a) (lectureNumber b)) \<le> 0)
             = num_le (lectureNumber a) (lectureNumber b)"
proof -
  have le: "(to_order (num_sub x y) \<le> 0) = num_le x y" if "x \<noteq> NaN" "y \<noteq> NaN" for x y
    using to_order_num_sub_greater[of x y] that by (auto simp: num_le_def)
  show 2: "\<forall>a \<in> A. \<forall>b \<in> A.
           (to_order (num_sub (lectureNumber a) (lectureNumber b)) \<le> 0)
             = num_le (lectureNumber a) (lectureNumber b)"
    using assms le by blast
  show "consistent_on (\<lambda>a b. to_order (num_sub (lectureNumber a) (lectureNumber b))) A"
    unfolding consistent_on_def
  proof (intro conjI ballI impI)
    fix a b assume "a \<in> A" "b \<in> A"
    show "(to_order (num_sub (lectureNumber a) (lectureNumber b)) < 0)
        = (0 < to_order (num_sub (lectureNumber b) (lectureNumber a)))"
      by (simp only: to_order_num_sub_less to_order_num_sub_greater)
  next
    fix a b c assume m: "a \<in> A" "b \<in> A" "c \<in> A"
      and "to_order (num_sub (lectureNumber a) (lectureNumber b)) \<le> 0
         \<and> to_order (num_sub (lectureNumber b) (lectureNumber c)) \<le> 0"
    then have "num_le (lectureNumber a) (lectureNumber b)" "num_le (lectureNumber b) (lectureNumber c)"
      using 2 by blast+
    from num_le_trans[OF this] show "to_order (num_sub (lectureNumber a) (lectureNumber c)) \<le> 0"
      using 2 m by blast
  qed
qed

section \<open>Facts about the parsers\<close>

text \<open>
  A date that \<open>parseDateFromFilename\<close> returns is never the invalid date.
\<close>

lemma valid_date_Some: "valid_date x = Some d \<Longrightarrow> d \<noteq> InvalidDate"
  by (auto simp: valid_date_def split: if_splits)

lemma month_loop_valid: "month_loop parse lower months = Some d \<Longrightarrow> d \<noteq> InvalidDate"
proof (induction months)
  case Nil
  then show ?case by simp
next
  case (Cons m months)
  obtain mon full where m: "m = (mon, full)" by (cases m)
  show ?case
  proof
    assume "d = InvalidDate"
    with Cons.prems have "month_loop parse lower months = Some d"
      unfolding m by (auto split: option.splits prod.splits dest: valid_date_Some)
    with Cons.IH \<open>d = InvalidDate\<close> show False by simp
  qed
qed

lemma ymd_date_valid: "ymd_date base = Some d \<Longrightarrow> d \<noteq> InvalidDate"
  by (auto simp: ymd_date_def Let_def split: option.splits prod.splits number.splits if_splits)

lemma compact_date_valid: "compact_date base = Some d \<Longrightarrow> d \<noteq> InvalidDate"
  by (auto simp: compact_date_def Let_def split: option.splits prod.splits number.splits if_splits
      dest: valid_date_Some)

lemma parseDateFromFilename_valid:
  "parseDateFromFilename parse name = Some d \<Longrightarrow> d \<noteq> InvalidDate"
  by (auto simp: parseDateFromFilename_def Let_def split: option.splits
      dest: ymd_date_valid compact_date_valid month_loop_valid)

lemma parseDate_examples:
  "parseDateFromFilename (\<lambda>text. InvalidDate) ''2024-01-15_lecture.m4a'' = Some (Date 1705276800000)"
  "parseDateFromFilename (\<lambda>text. InvalidDate) ''randomname.mp3'' = None"
  by code_simp+

section \<open>Facts about the store\<close>

lemma map_of_Map_set: "map_of (Map_set k v m) = (map_of m)(k \<mapsto> v)"
  by (induction m) auto

lemma keys_Map_set: "map_of m k = Some v' \<Longrightarrow> map fst (Map_set k v m) = map fst m"
  by (induction m) (auto split: if_splits)

lemma getAudioFile_updateAudioFile:
  "getAudioFile (updateAudioFile i updates s) j =
     (if j = i then map_option (\<lambda>f. merge_AudioFile f updates) (getAudioFile s i)
      else getAudioFile s j)"
  by (simp add: getAudioFile_def updateAudioFile_def Map_get_def map_of_Map_set split: option.splits)

lemma keys_updateAudioFile:
  "map fst (audioFiles (updateAudioFile i updates s)) = map fst (audioFiles s)"
  by (simp add: updateAudioFile_def Map_get_def keys_Map_set split: option.splits)

lemma rest_updateAudioFile:
  "transcriptions (updateAudioFile i updates s) = transcriptions s"
  "lectures (updateAudioFile i updates s) = lectures s"
  "podcastScripts (updateAudioFile i updates s) = podcastScripts s"
  "status (updateAudioFile i updates s) = status s"
  by (simp_all add: updateAudioFile_def split: option.splits)

lemma audioFiles_updateStatus [simp]: "audioFiles (updateStatus u s) = audioFiles s"
  by (simp add: updateStatus_def)

lemma getAllAudioFiles_updateStatus [simp]:
  "getAllAudioFiles (updateStatus u s) = getAllAudioFiles s"
  by (simp add: getAllAudioFiles_def)

section \<open>Facts about the stores a request passes through\<close>

text \<open>
  The last of the stores listed for a transcription request is the store the handler
  returns.
\<close>

lemma transcribe_loop_states_last:
  "last (s # transcribe_loop_states svc files s) = fst (transcribe_loop svc files s results)"
proof (induction files arbitrary: s results)
  case Nil
  then show ?case by simp
next
  case (Cons af files)
  show ?case
    using Cons.IH[of "update_count (fst (settle svc af (mark_transcribing af s)))"
        "results @ [snd (settle svc af (mark_transcribing af s))]"]
    by (simp add: Let_def split: prod.splits)
qed

lemma transcribe_POST_states_last:
  "last (s # transcribe_POST_states svc fileIds s) = fst (transcribe_POST svc fileIds s)"
proof (cases "toTranscribe fileIds s = []")
  case True
  then show ?thesis by (simp add: transcribe_POST_states_def transcribe_POST_def)
next
  case False
  define s1 where "s1 = updateStatus (no_status_updates\<lparr>p_phase := Some ph_transcribing\<rparr>) s"
  obtain s2 results where loop:
    "transcribe_loop svc (toTranscribe fileIds s) s1 [] = (s2, results)"
    by (cases "transcribe_loop svc (toTranscribe fileIds s) s1 []")
  have "last (s1 # transcribe_loop_states svc (toTranscribe fileIds s) s1) = s2"
    using transcribe_loop_states_last[of s1 svc "toTranscribe fileIds s" "[]"] loop by simp
  moreover have "last (x # y # zs @ [w]) = w" for x y w :: StoreData and zs
    by simp
  ultimately show ?thesis
    using False loop
    by (simp add: transcribe_POST_states_def transcribe_POST_def Let_def s1_def [symmetric]
        del: last.simps)
qed

text \<open>
  A request on a store that is a \<open>Map\<close> keyed by \<open>id\<close> selects each recording at most
  once, and the loop touches the recording of its turn only.
\<close>

lemma forward_refl: "forward a a"
  by (cases a) simp_all

lemma statuses_forward_same:
  "audioFiles s' = audioFiles s \<Longrightarrow> statuses_forward s s'"
  by (simp add: statuses_forward_def getAudioFile_def forward_refl)

lemma store_ok_same:
  "audioFiles s' = audioFiles s \<Longrightarrow> store_ok s' = store_ok s"
  by (simp add: store_ok_def)

lemma list_all_Map_set:
  "list_all (\<lambda>(k, f). P k f) m \<Longrightarrow> P k v \<Longrightarrow> list_all (\<lambda>(k, f). P k f) (Map_set k v m)"
  by (induction m) auto

lemma store_ok_lookup:
  assumes "store_ok s" "getAudioFile s i = Some g"
  shows "af_id g = i"
proof -
  from assms(2) have "(i, g) \<in> set (audioFiles s)"
    by (simp add: getAudioFile_def Map_get_def map_of_SomeD)
  with assms(1) show ?thesis
    by (auto simp: store_ok_def list_all_iff)
qed

lemma store_ok_updateAudioFile:
  assumes "store_ok s" "p_id updates = None"
  shows "store_ok (updateAudioFile i updates s)"
proof (cases "getAudioFile s i")
  case None
  then show ?thesis using assms(1) by (simp add: updateAudioFile_def getAudioFile_def)
next
  case (Some existing)
  have "af_id (merge_AudioFile existing updates) = i"
    using store_ok_lookup[OF assms(1) Some] assms(2)
    by (simp add: merge_AudioFile_def override_def)
  then have "list_all (\<lambda>(k, f). af_id f = k)
               (Map_set i (merge_AudioFile existing updates) (audioFiles s))"
    using assms(1) by (intro list_all_Map_set) (simp_all add: store_ok_def)
  moreover have "audioFiles (updateAudioFile i updates s)
      = Map_set i (merge_AudioFile existing updates) (audioFiles s)"
    using Some by (simp add: updateAudioFile_def getAudioFile_def)
  ultimately show ?thesis
    using assms(1) keys_updateAudioFile[of i updates s] by (simp add: store_ok_def)
qed

lemma getAudioFile_addTranscription [simp]:
  "getAudioFile (addTranscription t s) = getAudioFile s"
  by (simp add: getAudioFile_def addTranscription_def fun_eq_iff)

lemma audioFiles_addTranscription [simp]:
  "audioFiles (addTranscription t s) = audioFiles s"
  by (simp add: addTranscription_def)

lemma getAudioFile_updateStatus [simp]:
  "getAudioFile (updateStatus u s) = getAudioFile s"
  by (simp add: getAudioFile_def fun_eq_iff)

lemma audioFiles_update_count [simp]: "audioFiles (update_count s) = audioFiles s"
  by (simp add: update_count_def Let_def)

lemma getAudioFile_update_count [simp]: "getAudioFile (update_count s) = getAudioFile s"
  by (simp add: getAudioFile_def fun_eq_iff)

lemma status_of_merge:
  "af_status (merge_AudioFile g (no_updates\<lparr>p_status := Some v\<rparr>)) = v"
  "af_status (merge_AudioFile g (no_updates\<lparr>p_status := Some v, p_errorMessage := e\<rparr>)) = v"
  by (simp_all add: merge_AudioFile_def override_def no_updates_def)

lemma getAudioFile_mark:
  "getAudioFile (mark_transcribing af s) j =
     (if j = af_id af
      then map_option (\<lambda>g. merge_AudioFile g (no_updates\<lparr>p_status := Some st_transcribing\<rparr>))
             (getAudioFile s (af_id af))
      else getAudioFile s j)"
  by (simp add: mark_transcribing_def getAudioFile_updateAudioFile)

lemma getAudioFile_settle:
  "\<exists>v e. (v = st_transcribed \<or> v = st_error) \<and>
     (\<forall>j. getAudioFile (fst (settle svc af s)) j =
        (if j = af_id af
         then map_option (\<lambda>g. merge_AudioFile g (no_updates\<lparr>p_status := Some v, p_errorMessage := e\<rparr>))
                (getAudioFile s (af_id af))
         else getAudioFile s j))"
proof (cases "svc (savedPath af) (af_id af) (mimeType af)")
  case (Inl message)
  then have "\<forall>j. getAudioFile (fst (settle svc af s)) j =
        (if j = af_id af
         then map_option (\<lambda>g. merge_AudioFile g
                (no_updates\<lparr>p_status := Some st_error, p_errorMessage := Some (Some message)\<rparr>))
                (getAudioFile s (af_id af))
         else getAudioFile s j)"
    by (simp add: settle_def getAudioFile_updateAudioFile)
  then show ?thesis by blast
next
  case (Inr t)
  have "no_updates\<lparr>p_status := Some st_transcribed\<rparr>
      = no_updates\<lparr>p_status := Some st_transcribed, p_errorMessage := None\<rparr>"
    by (simp add: no_updates_def)
  with Inr have "\<forall>j. getAudioFile (fst (settle svc af s)) j =
        (if j = af_id af
         then map_option (\<lambda>g. merge_AudioFile g
                (no_updates\<lparr>p_status := Some st_transcribed, p_errorMessage := None\<rparr>))
                (getAudioFile s (af_id af))
         else getAudioFile s j)"
    by (simp add: settle_def getAudioFile_updateAudioFile)
  then show ?thesis by blast
qed

lemma store_ok_mark: "store_ok s \<Longrightarrow> store_ok (mark_transcribing af s)"
  by (simp add: mark_transcribing_def store_ok_updateAudioFile no_updates_def)

lemma store_ok_settle: "store_ok s \<Longrightarrow> store_ok (fst (settle svc af s))"
proof (cases "svc (savedPath af) (af_id af) (mimeType af)")
  case (Inl message)
  assume "store_ok s"
  with Inl show ?thesis
    by (simp add: settle_def store_ok_updateAudioFile no_updates_def)
next
  case (Inr t)
  assume "store_ok s"
  then have "store_ok (addTranscription t s)"
    using store_ok_same[of "addTranscription t s" s] by simp
  with Inr show ?thesis
    by (simp add: settle_def store_ok_updateAudioFile no_updates_def)
qed

lemma store_ok_update_count: "store_ok s \<Longrightarrow> store_ok (update_count s)"
  using store_ok_same[of "update_count s" s] by simp

text \<open>One turn of the loop on a recording that is still \<open>uploaded\<close>.\<close>

lemma loop_turn:
  fixes svc :: "string \<Rightarrow> string \<Rightarrow> string \<Rightarrow> string + Transcription"
  assumes "getAudioFile s (af_id af) = Some g" "af_status g = st_uploaded"
    and s1_def: "s1 = mark_transcribing af s"
    and s2_def: "s2 = fst (settle svc af s1)"
    and s3_def: "s3 = update_count s2"
  shows "statuses_forward s s1" "statuses_forward s1 s2" "statuses_forward s2 s3"
    and "\<forall>j. j \<noteq> af_id af \<longrightarrow> getAudioFile s3 j = getAudioFile s j"
proof -
  show "statuses_forward s s1"
    using assms(1,2)
    by (auto simp: statuses_forward_def s1_def getAudioFile_mark status_of_merge forward_refl)
  obtain v e where v: "v = st_transcribed \<or> v = st_error"
    and get2: "\<And>j. getAudioFile s2 j =
        (if j = af_id af
         then map_option (\<lambda>g. merge_AudioFile g (no_updates\<lparr>p_status := Some v, p_errorMessage := e\<rparr>))
                (getAudioFile s1 (af_id af))
         else getAudioFile s1 j)"
    using getAudioFile_settle[of svc af s1] unfolding s2_def by blast
  show "statuses_forward s1 s2"
    unfolding statuses_forward_def
  proof (intro allI impI)
    fix i f
    assume f: "getAudioFile s1 i = Some f"
    show "\<exists>g. getAudioFile s2 i = Some g \<and> forward (af_status f) (af_status g)"
    proof (cases "i = af_id af")
      case True
      with f assms(1) have "af_status f = st_transcribing"
        by (auto simp: s1_def getAudioFile_mark status_of_merge)
      with True f v show ?thesis
        by (auto simp: get2 status_of_merge)
    next
      case False
      with f show ?thesis by (simp add: get2 forward_refl)
    qed
  qed
  show "statuses_forward s2 s3"
    by (simp add: s3_def statuses_forward_same)
  show "\<forall>j. j \<noteq> af_id af \<longrightarrow> getAudioFile s3 j = getAudioFile s j"
    by (simp add: s3_def get2 s1_def getAudioFile_mark)
qed

lemma loop_states_forward:
  assumes "store_ok s" "distinct (map af_id files)"
    and "\<forall>f \<in> set files. \<exists>g. getAudioFile s (af_id f) = Some g \<and> af_status g = st_uploaded"
  shows "successively statuses_forward (s # transcribe_loop_states svc files s)
         \<and> store_ok (last (s # transcribe_loop_states svc files s))"
  using assms
proof (induction files arbitrary: s)
  case Nil
  then show ?case by simp
next
  case (Cons af files)
  define s1 where "s1 = mark_transcribing af s"
  define s2 where "s2 = fst (settle svc af s1)"
  define s3 where "s3 = update_count s2"
  from Cons.prems(3) obtain g where g: "getAudioFile s (af_id af) = Some g" "af_status g = st_uploaded"
    by auto
  note turn = loop_turn[OF g s1_def s2_def s3_def]
  have ok3: "store_ok s3"
    unfolding s3_def s2_def s1_def
    by (intro store_ok_update_count store_ok_settle store_ok_mark Cons.prems(1))
  have d: "distinct (map af_id files)" using Cons.prems(2) by simp
  have pending: "\<forall>f \<in> set files. \<exists>g. getAudioFile s3 (af_id f) = Some g \<and> af_status g = st_uploaded"
  proof
    fix f assume f: "f \<in> set files"
    then have "af_id f \<in> af_id ` set files" by (rule imageI)
    then have "af_id f \<noteq> af_id af" using Cons.prems(2) by auto
    then have "getAudioFile s3 (af_id f) = getAudioFile s (af_id f)" using turn(4) by simp
    with Cons.prems(3) f show "\<exists>g. getAudioFile s3 (af_id f) = Some g \<and> af_status g = st_uploaded"
      by simp
  qed
  from Cons.IH[OF ok3 d pending]
  have ih: "successively statuses_forward (s3 # transcribe_loop_states svc files s3)"
    "store_ok (last (s3 # transcribe_loop_states svc files s3))"
    by simp_all
  have states: "transcribe_loop_states svc (af # files) s
      = s1 # s2 # s3 # transcribe_loop_states svc files s3"
    by (simp add: Let_def s1_def s2_def s3_def)
  show ?case
    unfolding states using turn(1-3) ih by simp
qed

lemma toTranscribe_selected:
  assumes "store_ok s"
  shows "distinct (map af_id (toTranscribe fileIds s))"
    and "\<forall>f \<in> set (toTranscribe fileIds s). getAudioFile s (af_id f) = Some f"
proof -
  have ids: "map af_id (map snd (audioFiles s)) = map fst (audioFiles s)"
    using assms by (auto simp: store_ok_def list_all_iff)
  have "distinct (map af_id (map snd (audioFiles s)))"
    using assms unfolding ids by (simp add: store_ok_def)
  then show "distinct (map af_id (toTranscribe fileIds s))"
    by (cases fileIds)
       (simp_all add: toTranscribe_def getAllAudioFiles_def Map_values_def distinct_map_filter)
  show "\<forall>f \<in> set (toTranscribe fileIds s). getAudioFile s (af_id f) = Some f"
  proof
    fix f assume "f \<in> set (toTranscribe fileIds s)"
    then have "f \<in> snd ` set (audioFiles s)"
      by (cases fileIds) (auto simp: toTranscribe_def getAllAudioFiles_def Map_values_def)
    then obtain k where k: "(k, f) \<in> set (audioFiles s)" by force
    with assms have "af_id f = k" by (auto simp: store_ok_def list_all_iff)
    moreover from k assms have "map_of (audioFiles s) k = Some f"
      by (simp add: store_ok_def)
    ultimately show "getAudioFile s (af_id f) = Some f"
      by (simp add: getAudioFile_def Map_get_def)
  qed
qed

lemma selects_uploaded_None: "selects_uploaded (Transcribe svc None) s"
  by (simp add: toTranscribe_def list_all_iff)

lemma successively_snoc:
  "successively P (x # xs) \<Longrightarrow> P (last (x # xs)) y \<Longrightarrow> successively P (x # xs @ [y])"
  by (induction xs arbitrary: x) auto

lemma successively_chain:
  "successively P (x # xs) \<Longrightarrow> successively P (last (x # xs) # ys)
     \<Longrightarrow> successively P (x # xs @ ys)"
  by (induction xs arbitrary: x) auto

lemma transcribe_POST_states_forward:
  assumes "store_ok s"
    and "list_all (\<lambda>f. af_status f = st_uploaded) (toTranscribe fileIds s)"
  shows "successively statuses_forward (s # transcribe_POST_states svc fileIds s)
         \<and> store_ok (last (s # transcribe_POST_states svc fileIds s))"
proof (cases "toTranscribe fileIds s = []")
  case True
  with assms show ?thesis by (simp add: transcribe_POST_states_def)
next
  case False
  define s1 where "s1 = updateStatus (no_status_updates\<lparr>p_phase := Some ph_transcribing\<rparr>) s"
  define states where "states = transcribe_loop_states svc (toTranscribe fileIds s) s1"
  define s2 where "s2 = last (s1 # states)"
  define final where "final =
     (if all_done s2 then updateStatus (no_status_updates\<lparr>p_phase := Some ph_processing\<rparr>) s2
      else s2)"
  have eq: "transcribe_POST_states svc fileIds s = s1 # states @ [final]"
    using False
    unfolding transcribe_POST_states_def Let_def s1_def states_def s2_def final_def
    by (simp only: if_False)
  have ok1: "store_ok s1"
    using assms(1) store_ok_same[of s1 s] by (simp add: s1_def)
  have pend1: "\<forall>f \<in> set (toTranscribe fileIds s).
           \<exists>g. getAudioFile s1 (af_id f) = Some g \<and> af_status g = st_uploaded"
    using toTranscribe_selected(2)[OF assms(1), of fileIds] assms(2)
    by (simp add: s1_def list_all_iff)
  from loop_states_forward[OF ok1 toTranscribe_selected(1)[OF assms(1)] pend1, of svc]
  have loop: "successively statuses_forward (s1 # states)" "store_ok s2"
    by (simp_all add: states_def s2_def)
  have fin: "audioFiles final = audioFiles s2"
    by (simp add: final_def)
  have "successively statuses_forward (s1 # states @ [final])"
    using loop(1) statuses_forward_same[OF fin]
    by (intro successively_snoc) (simp_all add: s2_def)
  moreover have "statuses_forward s s1"
    by (simp add: s1_def statuses_forward_same)
  moreover have "store_ok final"
    using loop(2) store_ok_same[OF fin] by simp
  ultimately show ?thesis
    unfolding eq by simp
qed

lemma audioFiles_build_lectures:
  "audioFiles (fst (build_lectures env sorted_files groups s saved)) = audioFiles s"
  by (induction groups arbitrary: s saved)
     (auto simp: Let_def addLecture_def split: group_value.splits)

lemma audioFiles_clearLectures [simp]: "audioFiles (clearLectures s) = audioFiles s"
  by (simp add: clearLectures_def)

lemma audioFiles_catch_error [simp]: "audioFiles (fst (catch_error message s)) = audioFiles s"
  by (simp add: catch_error_def)

lemma audioFiles_process_POST: "audioFiles (fst (process_POST env s)) = audioFiles s"
proof -
  define s1 where "s1 = updateStatus (no_status_updates\<lparr>p_phase := Some ph_processing\<rparr>) s"
  have s1: "audioFiles s1 = audioFiles s" by (simp add: s1_def)
  have built: "audioFiles s3 = audioFiles s"
    if "build_lectures env sorted_files groups (clearLectures s1) [] = (s3, r)"
    for sorted_files groups s3 r
    using audioFiles_build_lectures[of env sorted_files groups "clearLectures s1" "[]"] that s1
    by simp
  show ?thesis
    unfolding process_POST_def Let_def s1_def [symmetric]
    by (auto simp: s1 dest: built split: sum.splits groups_value.splits prod.splits)
qed

lemma set_keys_Map_set: "fst ` set (Map_set k v m) = insert k (fst ` set m)"
  by (simp add: dom_map_of_conv_image_fst [symmetric] map_of_Map_set)

lemma distinct_keys_Map_set:
  "distinct (map fst m) \<Longrightarrow> distinct (map fst (Map_set k v m))"
proof (induction m)
  case Nil
  then show ?case by simp
next
  case (Cons p m)
  obtain k' v' where p: "p = (k', v')" by (cases p)
  show ?case
  proof (cases "k' = k")
    case True
    with Cons.prems show ?thesis by (simp add: p)
  next
    case False
    with Cons show ?thesis by (simp add: p set_keys_Map_set)
  qed
qed

lemma getAudioFile_addAudioFile:
  "getAudioFile (addAudioFile a s) j = (if j = af_id a then Some a else getAudioFile s j)"
  by (simp add: getAudioFile_def addAudioFile_def Map_get_def map_of_Map_set)

lemma store_ok_addAudioFile:
  assumes "store_ok s"
  shows "store_ok (addAudioFile a s)"
proof -
  have "list_all (\<lambda>(k, f). af_id f = k) (Map_set (af_id a) a (audioFiles s))"
    using assms by (intro list_all_Map_set) (simp_all add: store_ok_def)
  moreover have "distinct (map fst (Map_set (af_id a) a (audioFiles s)))"
    using assms by (intro distinct_keys_Map_set) (simp add: store_ok_def)
  ultimately show ?thesis by (simp add: store_ok_def addAudioFile_def)
qed

lemma store_ok_createStore: "store_ok createStore"
  by (simp add: store_ok_def createStore_def)

lemma addAudioFile_forward:
  assumes "absent_or_uploaded s (af_id a)" "af_status a = st_uploaded"
  shows "statuses_forward s (addAudioFile a s)"
  using assms
  by (auto simp: statuses_forward_def absent_or_uploaded_def getAudioFile_addAudioFile
      forward_refl)

lemma addAudioFile_absent_or_uploaded:
  assumes "absent_or_uploaded s j" "af_status a = st_uploaded"
  shows "absent_or_uploaded (addAudioFile a s) j"
  using assms by (simp add: absent_or_uploaded_def getAudioFile_addAudioFile)

lemma upload_loop_forward:
  assumes "store_ok s"
    and "\<forall>n < length savedFiles + length files. absent_or_uploaded s (up_uuidv4 env n)"
  shows "successively statuses_forward (s # fst (upload_loop env files fs s savedFiles errors))
         \<and> store_ok (last (s # fst (upload_loop env files fs s savedFiles errors)))"
  using assms
proof (induction files arbitrary: fs s savedFiles errors)
  case Nil
  then show ?case by simp
next
  case (Cons f rest)
  have shorter: "\<forall>n < length savedFiles + length rest. absent_or_uploaded s (up_uuidv4 env n)"
    using Cons.prems(2) by simp
  note skip = Cons.IH[OF Cons.prems(1) shorter]
  define mime where "mime = (if file_type f = [] then ''audio/mpeg'' else file_type f)"
  define i where "i = up_uuidv4 env (length savedFiles)"
  define ext where "ext = (if extname (file_name f) = [] then ''.audio'' else extname (file_name f))"
  define path where "path = getUploadDir @ ''/'' @ i @ ext"
  define fs' where "fs' = fs(path \<mapsto> up_now env)"
  define a where "a = (\<lambda>t.
     \<lparr>af_id = i, originalName = file_name f, savedPath = path, mimeType = mime,
      af_size = file_size f, recordedAt = t, uploadedAt = up_now env,
      af_status = st_uploaded, af_errorMessage = None\<rparr>)"
  show ?case
  proof (cases "file_name f = []")
    case True
    then show ?thesis using skip by simp
  next
    case named: False
    show ?thesis
    proof (cases "isAllowedAudioType mime (file_name f)")
      case False
      then show ?thesis using named skip by (simp add: mime_def)
    next
      case allowed: True
      have turn: "upload_loop env (f # rest) fs s savedFiles errors =
          (case write_error env path of
             Some message \<Rightarrow> ([], savedFiles, errors, Some message)
           | None \<Rightarrow>
               (case getRecordedAt (up_parse env) fs' path (file_name f) of
                  Inl e \<Rightarrow> ([], savedFiles, errors, Some (fs_error_message e))
                | Inr InvalidDate \<Rightarrow> ([], savedFiles, errors, Some ''Invalid time value'')
                | Inr (Date t) \<Rightarrow>
                    (case upload_loop env rest fs' (addAudioFile (a t) s) (savedFiles @ [a t])
                            errors of
                       (states, r) \<Rightarrow> (addAudioFile (a t) s # states, r))))"
        using named allowed
        unfolding upload_loop.simps Let_def mime_def i_def ext_def path_def fs'_def a_def
        by simp
      show ?thesis
      proof (cases "write_error env path")
        case (Some message)
        show ?thesis unfolding turn using Some Cons.prems(1) by simp
      next
        case None
        show ?thesis
        proof (cases "getRecordedAt (up_parse env) fs' path (file_name f)")
          case (Inl e)
          show ?thesis unfolding turn using None Inl Cons.prems(1) by simp
        next
          case (Inr d)
          show ?thesis
          proof (cases d)
            case InvalidDate
            show ?thesis unfolding turn using None Inr InvalidDate Cons.prems(1) by simp
          next
            case (Date t)
            define s' where "s' = addAudioFile (a t) s"
            have a: "af_id (a t) = i" "af_status (a t) = st_uploaded" by (simp_all add: a_def)
            have here: "absent_or_uploaded s (af_id (a t))"
              using Cons.prems(2) by (simp add: a i_def)
            have step: "statuses_forward s s'"
              unfolding s'_def by (rule addAudioFile_forward[OF here a(2)])
            have ok: "store_ok s'"
              unfolding s'_def by (rule store_ok_addAudioFile[OF Cons.prems(1)])
            have later: "\<forall>n < length (savedFiles @ [a t]) + length rest.
                           absent_or_uploaded s' (up_uuidv4 env n)"
              using Cons.prems(2) unfolding s'_def
              by (auto intro: addAudioFile_absent_or_uploaded[OF _ a(2)])
            note ih = Cons.IH[OF ok later, of fs' errors]
            have eq: "fst (upload_loop env (f # rest) fs s savedFiles errors)
                = s' # fst (upload_loop env rest fs' s' (savedFiles @ [a t]) errors)"
              unfolding turn using None Inr Date
              by (simp add: s'_def split: prod.splits)
            show ?thesis unfolding eq using step ih by simp
          qed
        qed
      qed
    qed
  qed
qed

lemma upload_POST_states_forward:
  assumes "store_ok s"
    and "list_all (\<lambda>n. getAudioFile s (up_uuidv4 env n) = None) [0..<length files]"
  shows "successively statuses_forward (s # fst (upload_POST_states env files s))
         \<and> store_ok (last (s # fst (upload_POST_states env files s)))"
proof -
  have fresh: "\<forall>n < length ([] :: AudioFile list) + length files.
                 absent_or_uploaded s (up_uuidv4 env n)"
    using assms(2) by (simp add: list_all_iff absent_or_uploaded_def)
  obtain states savedFiles errors thrown where loop:
    "upload_loop env files (up_fs env) s [] [] = (states, savedFiles, errors, thrown)"
    by (cases "upload_loop env files (up_fs env) s [] []") auto
  from upload_loop_forward[OF assms(1) fresh, of "up_fs env" "[]"] loop
  have 1: "successively statuses_forward (s # states)" and ok: "store_ok (last (s # states))"
    by simp_all
  define final where "final =
     updateStatus
       (no_status_updates
          \<lparr>p_totalFiles := Some (length (getAllAudioFiles (last (s # states)))),
           p_phase := Some (if 0 < length (getAllAudioFiles (last (s # states)))
                            then ph_uploading else ph_idle)\<rparr>) (last (s # states))"
  have fin: "audioFiles final = audioFiles (last (s # states))"
    by (simp add: final_def)
  have 2: "successively statuses_forward (s # states @ [final])"
    using 1 statuses_forward_same[OF fin] by (intro successively_snoc)
  have ok2: "store_ok final"
    using ok store_ok_same[OF fin] by simp
  have eq: "fst (upload_POST_states env files s) =
      (case setup_error env of
         Some message \<Rightarrow> []
       | None \<Rightarrow> if files = [] then []
                 else (case thrown of Some message \<Rightarrow> states | None \<Rightarrow> states @ [final]))"
    unfolding upload_POST_states_def loop final_def Let_def
    by (simp split: option.splits)
  have single: "successively statuses_forward [s]" by simp
  have l: "last (s # states @ [final]) = final" "last [s] = s" by simp_all
  show ?thesis
    unfolding eq using assms(1) 1 2 ok ok2 single
    by (simp split: option.splits del: last.simps successively.simps add: l)
qed

lemma audioFiles_generate_POST: "audioFiles (fst (generate_POST env body s)) = audioFiles s"
  unfolding generate_POST_def Let_def
  by (simp add: addPodcastScript_def split: option.splits prod.splits sum.splits)

lemma statuses_forward_lifecycle:
  "successively statuses_forward xs \<Longrightarrow> successively lifecycle_step xs"
  by (rule successively_mono[of statuses_forward xs lifecycle_step])
     (simp_all add: lifecycle_step_def)

lemma request_states_forward:
  assumes "store_ok s" "selects_uploaded r s"
  shows "successively lifecycle_step (s # request_states r s)
         \<and> store_ok (last (s # request_states r s))"
proof (cases r)
  case (Upload env files)
  with assms(2) have "list_all (\<lambda>n. getAudioFile s (up_uuidv4 env n) = None) [0..<length files]"
    by simp
  from upload_POST_states_forward[OF assms(1) this] Upload show ?thesis
    using statuses_forward_lifecycle[of "s # fst (upload_POST_states env files s)"] by simp
next
  case (Transcribe svc fileIds)
  with assms(2) have "list_all (\<lambda>f. af_status f = st_uploaded) (toTranscribe fileIds s)"
    by simp
  from transcribe_POST_states_forward[OF assms(1) this, of svc] Transcribe show ?thesis
    using statuses_forward_lifecycle[of "s # transcribe_POST_states svc fileIds s"] by simp
next
  case (Process env)
  then show ?thesis
    using assms(1) statuses_forward_same[OF audioFiles_process_POST[of env s]]
      store_ok_same[OF audioFiles_process_POST[of env s]]
    by (simp add: lifecycle_step_def)
next
  case (GeneratePodcast env body)
  then show ?thesis
    using assms(1) statuses_forward_same[OF audioFiles_generate_POST[of env body s]]
      store_ok_same[OF audioFiles_generate_POST[of env body s]]
    by (simp add: lifecycle_step_def)
next
  case Reset
  then show ?thesis
    by (simp add: lifecycle_step_def upload_DELETE_def reset_def store_ok_createStore)
qed

section \<open>The claims\<close>

text \<open>
  C1. The claim: \<open>parseDate\<close> tries the separated numeric pattern, the eight digits and the
  month name in this order, skips a match whose calendar date is invalid (month 13 in the
  separated numeric pattern) and returns none when no pattern yields a valid date. The code
  does not skip such a match of the first pattern: \<open>new Date(2024, 12, 1)\<close> is a valid date,
  the first of January 2025, so the test \<open>!isNaN(d.getTime())\<close> passes, and for
  \<open>2024-13-01.m4a\<close> the function returns that date, whatever the engine's parser of date
  strings is. The second pattern does check the month and the day.
\<close>

theorem parseDate_month_13:
  "parseDateFromFilename parse ''2024-13-01.m4a'' = Some (new_Date 2025 0 1)
   \<and> new_Date 2025 0 1 = Date 1735689600000"
  by (simp add: parseDateFromFilename_def ymd_date_def match_ymd_here_def path_defs
      char_class_defs date_defs)

text \<open>
  C2. The claim gives four values of \<open>parseSequence\<close>. Three are the code's. For
  \<open>lecture_part2.mp3\<close> the code returns none, not 2: the underscore is a word character, so
  \<open>\b\<close> does not hold between \<open>_\<close> and \<open>part\<close>, and the trailing number has no separator
  before it.
\<close>

theorem parseSequence_examples:
  "parseSequenceFromFilename ''01_lecture.m4a'' = Some (Num 1)
   \<and> parseSequenceFromFilename ''lecture_part2.mp3'' = None
   \<and> parseSequenceFromFilename ''session-02.wav'' = Some (Num 2)
   \<and> parseSequenceFromFilename ''randomname.mp3'' = None"
  by (simp add: sequence_defs path_defs char_class_defs)

text \<open>
  C3. For two recordings handed to the comparator, each with a \<open>recordedAt\<close> that is a time
  value (\<open>toISOString\<close> writes no other): when their timestamps are less than five minutes
  apart and both file names give a sequence number, the comparator returns the difference of
  the sequence numbers, so the order of the two puts the smaller sequence number first,
  against the timestamps if need be; when they are five minutes or more apart, or one file
  name gives no sequence number, it returns the difference of the timestamps, so the earlier
  recording comes first. On equality the two keep their places. The sequence numbers are the
  numbers \<open>parseInt\<close> returns, doubles: two names whose digits round to the same double have
  equal sequence numbers.
\<close>

theorem sequencer_tie_break:
  assumes "\<bar>recordedAt a\<bar> \<le> 8640000000000000" "\<bar>recordedAt b\<bar> \<le> 8640000000000000"
  shows
  "(\<bar>recordedAt a - recordedAt b\<bar> < 5 * 60 * 1000
      \<and> parseSequenceFromFilename (originalName a) = Some seqA
      \<and> parseSequenceFromFilename (originalName b) = Some seqB
    \<longrightarrow> compare_recordings a b = num_sub seqA seqB
        \<and> order_recordings long [a, b] = (if num_less seqB seqA then [b, a] else [a, b]))
   \<and> (5 * 60 * 1000 \<le> \<bar>recordedAt a - recordedAt b\<bar>
        \<or> parseSequenceFromFilename (originalName a) = None
        \<or> parseSequenceFromFilename (originalName b) = None
    \<longrightarrow> compare_recordings a b = round_to_double (recordedAt a - recordedAt b)
        \<and> order_recordings long [a, b] = (if recordedAt b < recordedAt a then [b, a] else [a, b]))"
proof -
  have sym: "\<bar>recordedAt b - recordedAt a\<bar> = \<bar>recordedAt a - recordedAt b\<bar>" by simp
  note ab = compare_recordings_value[OF assms]
  note ba = compare_recordings_value[OF assms(2,1), unfolded sym]
  have close: "compare_recordings a b = num_sub seqA seqB
        \<and> order_recordings long [a, b] = (if num_less seqB seqA then [b, a] else [a, b])"
    if "\<bar>recordedAt a - recordedAt b\<bar> < 5 * 60 * 1000"
      "parseSequenceFromFilename (originalName a) = Some seqA"
      "parseSequenceFromFilename (originalName b) = Some seqB"
    using that by (simp add: ab ba order_recordings_pair to_order_num_sub_less)
  have far: "compare_recordings a b = round_to_double (recordedAt a - recordedAt b)
        \<and> order_recordings long [a, b] = (if recordedAt b < recordedAt a then [b, a] else [a, b])"
    if "5 * 60 * 1000 \<le> \<bar>recordedAt a - recordedAt b\<bar>
        \<or> parseSequenceFromFilename (originalName a) = None
        \<or> parseSequenceFromFilename (originalName b) = None"
  proof -
    from that have "compare_recordings a b = round_to_double (recordedAt a - recordedAt b)"
      and "compare_recordings b a = round_to_double (recordedAt b - recordedAt a)"
      unfolding ab ba
      by (cases "parseSequenceFromFilename (originalName a)";
          cases "parseSequenceFromFilename (originalName b)"; auto)+
    then show ?thesis
      by (simp add: order_recordings_pair to_order_round_sign)
  qed
  show ?thesis using close far by blast
qed

theorem sequencer_tie_break_witness:
  "order_recordings sort_short [rec_a, rec_b] = [rec_b, rec_a]
   \<and> compare_recordings rec_a rec_b = Num 1
   \<and> order_recordings sort_short [rec_a, rec_c] = [rec_a, rec_c]
   \<and> compare_recordings rec_a rec_c = Num (- 600000)
   \<and> order_recordings sort_short
        [rec_a\<lparr>originalName := ''9007199254740993_a.m4a''\<rparr>,
         rec_b\<lparr>originalName := ''9007199254740992_b.m4a''\<rparr>]
      = [rec_a\<lparr>originalName := ''9007199254740993_a.m4a''\<rparr>,
         rec_b\<lparr>originalName := ''9007199254740992_b.m4a''\<rparr>]"
  using sequencer_tie_break[of rec_a rec_b "Num 2" "Num 1" sort_short]
    sequencer_tie_break[of rec_a rec_c "Num 2" "Num 1" sort_short]
    sequencer_tie_break[of "rec_a\<lparr>originalName := ''9007199254740993_a.m4a''\<rparr>"
      "rec_b\<lparr>originalName := ''9007199254740992_b.m4a''\<rparr>"
      "Num 9007199254740992" "Num 9007199254740992" sort_short]
  by (simp add: rec_a_def rec_b_def rec_c_def parseSequence_rec parseSequence_rounded
      num_sub_Num num_less_def round_to_double_def)

text \<open>
  C4. The claim: under every sequence of pipeline operations the status of a recording
  moves forward only, from \<open>uploaded\<close> to \<open>transcribing\<close> to \<open>transcribed\<close> or \<open>error\<close>. A
  transcription request that names \<open>fileIds\<close> selects the named recordings whatever their
  status: a \<open>transcribed\<close> recording is set to \<open>transcribing\<close> again, and ends as \<open>error\<close>
  when the service fails this time.
\<close>

theorem named_file_returns_to_transcribing:
  "map af_status (getAllAudioFiles store_ac) = [st_transcribed, st_uploaded]
   \<and> map (\<lambda>s. map af_status (getAllAudioFiles s))
        (transcribe_POST_states service_down (Some [''a'']) store_ac)
      = [[st_transcribed, st_uploaded], [st_transcribing, st_uploaded],
         [st_error, st_uploaded], [st_error, st_uploaded], [st_error, st_uploaded]]
   \<and> map af_status (getAllAudioFiles (fst (transcribe_POST service_down (Some [''a'']) store_ac)))
      = [st_error, st_uploaded]
   \<and> \<not> lifecycle_step store_ac
         (hd (tl (transcribe_POST_states service_down (Some [''a'']) store_ac)))
   \<and> \<not> forward st_transcribed st_transcribing
   \<and> \<not> forward st_transcribed st_error"
proof -
  define s1 where "s1 = hd (tl (transcribe_POST_states service_down (Some [''a'']) store_ac))"
  have a: "getAudioFile store_ac ''a'' = Some rec_a"
    by (simp add: store_ac_def rec_a_def rec_c_def store_defs)
  have b: "map_option af_status (getAudioFile s1 ''a'') = Some st_transcribing"
    by (simp add: s1_def store_ac_def rec_a_def rec_c_def service_down_def
        transcribe_POST_states_def transcribe_defs store_defs Let_def)
  have c: "s1 \<noteq> createStore"
    by (simp add: s1_def store_ac_def rec_a_def rec_c_def service_down_def
        transcribe_POST_states_def transcribe_defs store_defs Let_def createStore_def)
  have "\<not> statuses_forward store_ac s1"
  proof
    assume "statuses_forward store_ac s1"
    with a obtain g where g: "getAudioFile s1 ''a'' = Some g"
      "forward (af_status rec_a) (af_status g)"
      unfolding statuses_forward_def by blast
    from g(1) b have "af_status g = st_transcribing" by simp
    with g(2) show False by (simp add: rec_a_def)
  qed
  with c have "\<not> lifecycle_step store_ac
         (hd (tl (transcribe_POST_states service_down (Some [''a'']) store_ac)))"
    unfolding lifecycle_step_def s1_def by simp
  moreover have "map af_status (getAllAudioFiles store_ac) = [st_transcribed, st_uploaded]"
    by (simp add: store_ac_def rec_a_def rec_c_def store_defs)
  moreover have "map (\<lambda>s. map af_status (getAllAudioFiles s))
        (transcribe_POST_states service_down (Some [''a'']) store_ac)
      = [[st_transcribed, st_uploaded], [st_transcribing, st_uploaded],
         [st_error, st_uploaded], [st_error, st_uploaded], [st_error, st_uploaded]]"
    by (simp add: store_ac_def rec_a_def rec_c_def service_down_def transcribe_POST_states_def
      transcribe_defs store_defs Let_def)
  moreover have "map af_status
       (getAllAudioFiles (fst (transcribe_POST service_down (Some [''a'']) store_ac)))
      = [st_error, st_uploaded]"
    by (simp add: store_ac_def rec_a_def rec_c_def service_down_def
      transcribe_defs store_defs Let_def)
  ultimately show ?thesis by simp
qed

text \<open>
  C4, amended. From a store keyed by \<open>id\<close>, under every sequence of upload, transcription,
  grouping, script generation and reset requests in which each transcription request selects
  only recordings whose status is \<open>uploaded\<close> and each upload draws identifiers that the store
  does not hold: from each store to the next one the requests pass through, every recording
  stays in the store with a status that is the same or has moved forward, or the store has
  been reset and holds no recording.
\<close>

theorem statuses_move_forward:
  assumes "store_ok s" and "all_select_uploaded requests s"
  shows "successively lifecycle_step (s # pipeline_states requests s)"
  using assms
proof (induction requests arbitrary: s)
  case Nil
  then show ?case by simp
next
  case (Cons r rs)
  from Cons.prems(2) have r: "selects_uploaded r s"
    and rs: "all_select_uploaded rs (last (s # request_states r s))"
    by simp_all
  from request_states_forward[OF Cons.prems(1) r]
  have 1: "successively lifecycle_step (s # request_states r s)"
    and ok: "store_ok (last (s # request_states r s))"
    by simp_all
  from Cons.IH[OF ok rs]
  have 2: "successively lifecycle_step
             (last (s # request_states r s) # pipeline_states rs (last (s # request_states r s)))" .
  show ?case
    using successively_chain[OF 1 2] by (simp add: Let_def)
qed

theorem statuses_move_forward_witness:
  "store_ok store_ac
   \<and> all_select_uploaded
        [Upload env_upload files_two, Transcribe service_down None, Process env_no_key,
         GeneratePodcast env_podcast (Some (''L1'', ''qa'')), Reset,
         Upload env_upload files_two] store_ac
   \<and> successively lifecycle_step
        (store_ac # pipeline_states
           [Upload env_upload files_two, Transcribe service_down None, Process env_no_key,
            GeneratePodcast env_podcast (Some (''L1'', ''qa'')), Reset,
            Upload env_upload files_two] store_ac)
   \<and> map (\<lambda>s. map af_status (getAllAudioFiles s))
        (pipeline_states
           [Upload env_upload files_two, Transcribe service_down None, Process env_no_key,
            GeneratePodcast env_podcast (Some (''L1'', ''qa'')), Reset,
            Upload env_upload files_two] store_ac)
      = [[st_transcribed, st_uploaded, st_uploaded],
         [st_transcribed, st_uploaded, st_uploaded],
         [st_transcribed, st_uploaded, st_uploaded],
         [st_transcribed, st_transcribing, st_uploaded],
         [st_transcribed, st_error, st_uploaded],
         [st_transcribed, st_error, st_uploaded],
         [st_transcribed, st_error, st_transcribing],
         [st_transcribed, st_error, st_error],
         [st_transcribed, st_error, st_error],
         [st_transcribed, st_error, st_error],
         [st_transcribed, st_error, st_error],
         [st_transcribed, st_error, st_error], [], [st_uploaded], [st_uploaded]]"
proof -
  have ok: "store_ok store_ac"
    by code_simp
  have sel: "all_select_uploaded
        [Upload env_upload files_two, Transcribe service_down None, Process env_no_key,
         GeneratePodcast env_podcast (Some (''L1'', ''qa'')), Reset,
         Upload env_upload files_two] store_ac"
    by code_simp
  have states: "map (\<lambda>s. map af_status (getAllAudioFiles s))
        (pipeline_states
           [Upload env_upload files_two, Transcribe service_down None, Process env_no_key,
            GeneratePodcast env_podcast (Some (''L1'', ''qa'')), Reset,
            Upload env_upload files_two] store_ac)
      = [[st_transcribed, st_uploaded, st_uploaded],
         [st_transcribed, st_uploaded, st_uploaded],
         [st_transcribed, st_uploaded, st_uploaded],
         [st_transcribed, st_transcribing, st_uploaded],
         [st_transcribed, st_error, st_uploaded],
         [st_transcribed, st_error, st_uploaded],
         [st_transcribed, st_error, st_transcribing],
         [st_transcribed, st_error, st_error],
         [st_transcribed, st_error, st_error],
         [st_transcribed, st_error, st_error],
         [st_transcribed, st_error, st_error],
         [st_transcribed, st_error, st_error], [], [st_uploaded], [st_uploaded]]"
    by code_simp
  from statuses_move_forward[OF ok sel] ok sel states show ?thesis by blast
qed

text \<open>
  C5. The claim: whenever the grouping operation throws, the lectures stored before are
  unchanged and no partial set of lectures is stored. When the grouping call returns a list
  whose second element has no \<open>audioFileIds\<close>, the handler has cleared the lectures and
  stored the first lecture before it throws.
\<close>

theorem grouping_failure_after_clear:
  "snd (process_POST env_bad_group store_lec) = Resp_500 ''Cannot read properties of undefined''
   \<and> phase (status (fst (process_POST env_bad_group store_lec))) = ph_error
   \<and> map fst (lectures store_lec) = [''L1'']
   \<and> map fst (lectures (fst (process_POST env_bad_group store_lec))) = [''u0'']"
  by (simp add: env_bad_group_def store_lec_def rec_a_def old_lecture_def lecture_numbered_def process_defs store_defs
      List.map_filter_def Let_def)

text \<open>
  C5, amended. If the grouping call itself throws (no credential, a failure of the service,
  a reply that is no text or no JSON), the store is the one before the request except for
  the status: the phase is \<open>error\<close> and the message is the one thrown. The lectures are
  unchanged.
\<close>

theorem grouping_call_throws:
  assumes "filter (\<lambda>f. af_status f = st_transcribed) (getAllAudioFiles s) \<noteq> []"
    and "inferLectures env
           (process_inputs s
              (order_recordings (sort_long env) (filter (\<lambda>f. af_status f = st_transcribed) (getAllAudioFiles s))))
         = Inl message"
  shows "process_POST env s =
           (s\<lparr>status := (status s)\<lparr>phase := ph_error, errorMessage := Some message\<rparr>\<rparr>,
            Resp_500 message)"
proof -
  define s1 where "s1 = updateStatus (no_status_updates\<lparr>p_phase := Some ph_processing\<rparr>) s"
  have inputs: "process_inputs s1 files = process_inputs s files" for files
    by (simp add: process_inputs_def getTranscription_def s1_def updateStatus_def)
  have all: "getAllAudioFiles s1 = getAllAudioFiles s"
    by (simp add: s1_def)
  have "process_POST env s = catch_error message s1"
    using assms unfolding process_POST_def Let_def s1_def [symmetric] all inputs
    by simp
  also have "\<dots> = (s\<lparr>status := (status s)\<lparr>phase := ph_error, errorMessage := Some message\<rparr>\<rparr>,
            Resp_500 message)"
    by (simp add: catch_error_def s1_def updateStatus_def merge_ProcessingStatus_def override_def
        no_status_updates_def)
  finally show ?thesis .
qed

theorem grouping_call_throws_witness:
  "process_POST env_no_key store_lec =
     (store_lec\<lparr>status := (status store_lec)
        \<lparr>phase := ph_error,
         errorMessage := Some ''ANTHROPIC_API_KEY is not set in environment variables''\<rparr>\<rparr>,
      Resp_500 ''ANTHROPIC_API_KEY is not set in environment variables'')
   \<and> lectures (fst (process_POST env_no_key store_lec)) = [(''L1'', old_lecture)]"
proof -
  have 1: "filter (\<lambda>f. af_status f = st_transcribed) (getAllAudioFiles store_lec) \<noteq> []"
    by (simp add: store_lec_def rec_a_def store_defs)
  have 2: "inferLectures env_no_key
           (process_inputs store_lec
              (order_recordings (sort_long env_no_key) (filter (\<lambda>f. af_status f = st_transcribed) (getAllAudioFiles store_lec))))
         = Inl ''ANTHROPIC_API_KEY is not set in environment variables''"
    by (simp add: env_no_key_def)
  have 3: "lectures store_lec = [(''L1'', old_lecture)]"
    by (simp add: store_lec_def store_defs old_lecture_def lecture_numbered_def)
  from grouping_call_throws[OF 1 2] 3 show ?thesis by simp
qed

text \<open>
  C6. After a transcription batch (a request that found at least one file to transcribe):
  if every recording in the store is \<open>transcribed\<close> or \<open>error\<close>, the phase reads
  \<open>processing\<close>.
\<close>

theorem transcribe_batch_phase:
  assumes "toTranscribe fileIds s \<noteq> []"
    and "\<forall>f \<in> set (getAllAudioFiles (fst (transcribe_POST transcribeAudioFile fileIds s))).
           af_status f = st_transcribed \<or> af_status f = st_error"
  shows "phase (status (fst (transcribe_POST transcribeAudioFile fileIds s))) = ph_processing"
proof -
  define s1 where "s1 = updateStatus (no_status_updates\<lparr>p_phase := Some ph_transcribing\<rparr>) s"
  obtain s2 results where loop:
    "transcribe_loop transcribeAudioFile (toTranscribe fileIds s) s1 [] = (s2, results)"
    by (cases "transcribe_loop transcribeAudioFile (toTranscribe fileIds s) s1 []")
  have post: "fst (transcribe_POST transcribeAudioFile fileIds s) =
      (if all_done s2
       then updateStatus (no_status_updates\<lparr>p_phase := Some ph_processing\<rparr>) s2 else s2)"
    using assms(1) loop by (simp add: transcribe_POST_def Let_def s1_def)
  then have "getAllAudioFiles (fst (transcribe_POST transcribeAudioFile fileIds s)) = getAllAudioFiles s2"
    by simp
  with assms(2) have "all_done s2"
    by (simp add: all_done_def list_all_iff)
  with post show ?thesis
    by (simp add: updateStatus_def merge_ProcessingStatus_def override_def no_status_updates_def)
qed

theorem transcribe_batch_phase_witness:
  "toTranscribe None store_c \<noteq> []
   \<and> map af_status (getAllAudioFiles (fst (transcribe_POST service_down None store_c))) = [st_error]
   \<and> phase (status (fst (transcribe_POST service_down None store_c))) = ph_processing"
proof -
  have 1: "toTranscribe None store_c \<noteq> []"
    by (simp add: store_c_def rec_c_def toTranscribe_def store_defs)
  have 2: "map af_status (getAllAudioFiles (fst (transcribe_POST service_down None store_c))) = [st_error]"
    by (simp add: store_c_def rec_c_def service_down_def transcribe_defs store_defs Let_def)
  then have "\<forall>f \<in> set (getAllAudioFiles (fst (transcribe_POST service_down None store_c))).
           af_status f = st_transcribed \<or> af_status f = st_error"
    by (auto simp: map_eq_Cons_conv)
  from transcribe_batch_phase[OF 1 this] 1 2 show ?thesis by simp
qed

text \<open>
  C7. The claim: \<open>getRecordedAt\<close> is total, with no error path. It is not: when the file name
  holds no date and there is no file at the path, \<open>fs.statSync\<close> throws.
\<close>

theorem getRecordedAt_missing_file:
  "parseDateFromFilename (\<lambda>text. InvalidDate) ''randomname.mp3'' = None
   \<and> getRecordedAt (\<lambda>text. InvalidDate) Map.empty ''/tmp/crammer-uploads/x.mp3'' ''randomname.mp3''
       = Inl (ENOENT ''/tmp/crammer-uploads/x.mp3'')"
  by code_simp

text \<open>
  C7, amended. \<open>getRecordedAt\<close> returns the date parsed from the name when there is one,
  a valid date, without a look at the file system; otherwise the modification time of the
  file at the path when there is such a file, and otherwise it throws.
\<close>

theorem getRecordedAt_result:
  "(parseDateFromFilename parse name = Some d
      \<longrightarrow> getRecordedAt parse fs filePath name = Inr d \<and> d \<noteq> InvalidDate)
   \<and> (parseDateFromFilename parse name = None \<and> fs filePath = Some mtime
      \<longrightarrow> getRecordedAt parse fs filePath name = Inr (Date mtime))
   \<and> (parseDateFromFilename parse name = None \<and> fs filePath = None
      \<longrightarrow> getRecordedAt parse fs filePath name = Inl (ENOENT filePath))"
  using parseDateFromFilename_valid[of parse name d]
  by (simp add: getRecordedAt_def statSync_mtime_def)

theorem getRecordedAt_result_witness:
  "getRecordedAt (\<lambda>text. InvalidDate) Map.empty ''/tmp/crammer-uploads/x.m4a'' ''2024-01-15_lecture.m4a''
     = Inr (Date 1705276800000)
   \<and> getRecordedAt (\<lambda>text. InvalidDate) [''/tmp/crammer-uploads/x.mp3'' \<mapsto> 1700000000000]
       ''/tmp/crammer-uploads/x.mp3'' ''randomname.mp3''
     = Inr (Date 1700000000000)
   \<and> getRecordedAt (\<lambda>text. InvalidDate) Map.empty ''/tmp/crammer-uploads/x.mp3'' ''randomname.mp3''
     = Inl (ENOENT ''/tmp/crammer-uploads/x.mp3'')"
  using getRecordedAt_result[of "\<lambda>text. InvalidDate" "''2024-01-15_lecture.m4a''" "Date 1705276800000"
      Map.empty "''/tmp/crammer-uploads/x.m4a''"]
    getRecordedAt_result[of "\<lambda>text. InvalidDate" "''randomname.mp3''" undefined
      "[''/tmp/crammer-uploads/x.mp3'' \<mapsto> 1700000000000]" "''/tmp/crammer-uploads/x.mp3''" 1700000000000]
    getRecordedAt_result[of "\<lambda>text. InvalidDate" "''randomname.mp3''" undefined
      Map.empty "''/tmp/crammer-uploads/x.mp3''"]
  by (simp add: parseDate_examples)

text \<open>
  C9. \<open>updateAudioFile(id, updates)\<close> on a store that holds a recording under \<open>id\<close> puts the
  shallow merge in its place: every field named in \<open>updates\<close> has the supplied value, every
  other field the value it had; every other recording, the order of the keys, the
  transcriptions, the lectures, the scripts and the status are as before. On a store without
  such a recording nothing changes.
\<close>

theorem updateAudioFile_shallow_merge:
  "(getAudioFile s i = Some existing \<longrightarrow>
      (\<exists>merged.
         getAudioFile (updateAudioFile i updates s) i = Some merged
         \<and> af_id merged = (case p_id updates of Some v \<Rightarrow> v | None \<Rightarrow> af_id existing)
         \<and> originalName merged =
             (case p_originalName updates of Some v \<Rightarrow> v | None \<Rightarrow> originalName existing)
         \<and> savedPath merged =
             (case p_savedPath updates of Some v \<Rightarrow> v | None \<Rightarrow> savedPath existing)
         \<and> mimeType merged =
             (case p_mimeType updates of Some v \<Rightarrow> v | None \<Rightarrow> mimeType existing)
         \<and> af_size merged = (case p_size updates of Some v \<Rightarrow> v | None \<Rightarrow> af_size existing)
         \<and> recordedAt merged =
             (case p_recordedAt updates of Some v \<Rightarrow> v | None \<Rightarrow> recordedAt existing)
         \<and> uploadedAt merged =
             (case p_uploadedAt updates of Some v \<Rightarrow> v | None \<Rightarrow> uploadedAt existing)
         \<and> af_status merged =
             (case p_status updates of Some v \<Rightarrow> v | None \<Rightarrow> af_status existing)
         \<and> af_errorMessage merged =
             (case p_errorMessage updates of Some v \<Rightarrow> v | None \<Rightarrow> af_errorMessage existing))
      \<and> (\<forall>j. j \<noteq> i \<longrightarrow> getAudioFile (updateAudioFile i updates s) j = getAudioFile s j)
      \<and> map fst (audioFiles (updateAudioFile i updates s)) = map fst (audioFiles s)
      \<and> transcriptions (updateAudioFile i updates s) = transcriptions s
      \<and> lectures (updateAudioFile i updates s) = lectures s
      \<and> podcastScripts (updateAudioFile i updates s) = podcastScripts s
      \<and> status (updateAudioFile i updates s) = status s)
   \<and> (getAudioFile s i = None \<longrightarrow> updateAudioFile i updates s = s)"
proof -
  have none: "updateAudioFile i updates s = s" if "getAudioFile s i = None"
    using that by (simp add: updateAudioFile_def getAudioFile_def)
  have some: "getAudioFile (updateAudioFile i updates s) i = Some (merge_AudioFile existing updates)"
    if "getAudioFile s i = Some existing"
    using that by (simp add: getAudioFile_updateAudioFile)
  have fields:
    "af_id (merge_AudioFile existing updates) = (case p_id updates of Some v \<Rightarrow> v | None \<Rightarrow> af_id existing)"
    "originalName (merge_AudioFile existing updates) =
       (case p_originalName updates of Some v \<Rightarrow> v | None \<Rightarrow> originalName existing)"
    "savedPath (merge_AudioFile existing updates) =
       (case p_savedPath updates of Some v \<Rightarrow> v | None \<Rightarrow> savedPath existing)"
    "mimeType (merge_AudioFile existing updates) =
       (case p_mimeType updates of Some v \<Rightarrow> v | None \<Rightarrow> mimeType existing)"
    "af_size (merge_AudioFile existing updates) =
       (case p_size updates of Some v \<Rightarrow> v | None \<Rightarrow> af_size existing)"
    "recordedAt (merge_AudioFile existing updates) =
       (case p_recordedAt updates of Some v \<Rightarrow> v | None \<Rightarrow> recordedAt existing)"
    "uploadedAt (merge_AudioFile existing updates) =
       (case p_uploadedAt updates of Some v \<Rightarrow> v | None \<Rightarrow> uploadedAt existing)"
    "af_status (merge_AudioFile existing updates) =
       (case p_status updates of Some v \<Rightarrow> v | None \<Rightarrow> af_status existing)"
    "af_errorMessage (merge_AudioFile existing updates) =
       (case p_errorMessage updates of Some v \<Rightarrow> v | None \<Rightarrow> af_errorMessage existing)"
    by (simp_all add: merge_AudioFile_def override_def split: option.splits)
  have others: "\<forall>j. j \<noteq> i \<longrightarrow> getAudioFile (updateAudioFile i updates s) j = getAudioFile s j"
    by (simp add: getAudioFile_updateAudioFile)
  show ?thesis
    using none some fields others keys_updateAudioFile[of i updates s]
      rest_updateAudioFile[of i updates s]
    by (intro conjI impI exI[of _ "merge_AudioFile existing updates"]) simp_all
qed

theorem updateAudioFile_shallow_merge_witness:
  "getAudioFile (updateAudioFile ''c'' (no_updates\<lparr>p_status := Some st_transcribing\<rparr>) store_ac) ''c''
     = Some (rec_c\<lparr>af_status := st_transcribing\<rparr>)
   \<and> getAudioFile (updateAudioFile ''c'' (no_updates\<lparr>p_status := Some st_transcribing\<rparr>) store_ac) ''a''
     = Some rec_a
   \<and> updateAudioFile ''z'' (no_updates\<lparr>p_status := Some st_transcribing\<rparr>) store_ac = store_ac"
proof -
  have c: "getAudioFile store_ac ''c'' = Some rec_c"
    and a: "getAudioFile store_ac ''a'' = Some rec_a"
    and z: "getAudioFile store_ac ''z'' = None"
    by (simp_all add: store_ac_def getAudioFile_def addAudioFile_def createStore_def Map_get_def
        rec_a_def rec_c_def)
  from updateAudioFile_shallow_merge[of store_ac "''c''" rec_c "no_updates\<lparr>p_status := Some st_transcribing\<rparr>"] c
  obtain merged where m:
    "getAudioFile (updateAudioFile ''c'' (no_updates\<lparr>p_status := Some st_transcribing\<rparr>) store_ac) ''c'' = Some merged"
    "af_id merged = af_id rec_c" "originalName merged = originalName rec_c"
    "savedPath merged = savedPath rec_c" "mimeType merged = mimeType rec_c"
    "af_size merged = af_size rec_c" "recordedAt merged = recordedAt rec_c"
    "uploadedAt merged = uploadedAt rec_c" "af_status merged = st_transcribing"
    "af_errorMessage merged = af_errorMessage rec_c"
    and o: "\<forall>j. j \<noteq> ''c'' \<longrightarrow> getAudioFile (updateAudioFile ''c'' (no_updates\<lparr>p_status := Some st_transcribing\<rparr>) store_ac) j = getAudioFile store_ac j"
    by (auto simp: no_updates_def)
  from m have "merged = rec_c\<lparr>af_status := st_transcribing\<rparr>"
    by (cases merged) (simp add: rec_c_def)
  moreover from o a have "getAudioFile (updateAudioFile ''c'' (no_updates\<lparr>p_status := Some st_transcribing\<rparr>) store_ac) ''a'' = Some rec_a"
    by simp
  moreover from updateAudioFile_shallow_merge[of store_ac "''z''" rec_c "no_updates\<lparr>p_status := Some st_transcribing\<rparr>"] z
  have "updateAudioFile ''z'' (no_updates\<lparr>p_status := Some st_transcribing\<rparr>) store_ac = store_ac"
    by simp
  ultimately show ?thesis using m(1) by simp
qed

text \<open>
  C10. The claim: \<open>getAllLectures\<close> always returns the stored lectures in ascending order of
  \<open>lectureNumber\<close>. The handler stores the groups of the reply as they are parsed; for a
  lecture stored without a number the comparator returns \<open>NaN\<close>, which the sort reads as
  equal. Three lectures stored with the numbers 2, none and 1 come back in this order.
\<close>

theorem lectures_without_number_unsorted:
  "map lectureNumber (Map_values (lectures store_unnumbered)) = [Num 2, NaN, Num 1]
   \<and> map lectureNumber (getAllLectures sort_short store_unnumbered) = [Num 2, NaN, Num 1]
   \<and> \<not> num_le (Num 2) (Num 1)"
  by (simp add: store_unnumbered_def lecture_numbered_def getAllLectures_def Array_sort_def
      sort_short_def CountAndMakeRun_def find_insertion_point.simps addLecture_def
      createStore_def Map_values_def Let_def num_sub_def to_order_def num_le_def num_less_def
      round_to_double_def)

text \<open>
  C10, amended. When the \<open>lectureNumber\<close> of every stored lecture is a number, and the
  engine's sort of a long array does what ECMAScript asks of it, \<open>getAllLectures\<close> returns
  the stored lectures, each as often as it is stored, in ascending order of \<open>lectureNumber\<close>,
  whatever the order of insertion.
\<close>

theorem getAllLectures_sorted:
  assumes "sorts_consistent long"
    and "\<forall>l \<in> set (Map_values (lectures s)). lectureNumber l \<noteq> NaN"
  shows "sorted_wrt (\<lambda>a b. num_le (lectureNumber a) (lectureNumber b)) (getAllLectures long s)
         \<and> mset (getAllLectures long s) = mset (Map_values (lectures s))"
proof -
  define xs where "xs = Map_values (lectures s)"
  define cmp :: "Lecture \<Rightarrow> Lecture \<Rightarrow> int"
    where "cmp = (\<lambda>a b. to_order (num_sub (lectureNumber a) (lectureNumber b)))"
  define ys where "ys = getAllLectures long s"
  have ys: "ys = (if length xs < 64 then sort_short cmp xs else long cmp xs)"
    by (simp add: ys_def getAllLectures_def Array_sort_def xs_def cmp_def)
  note c = lecture_comparator_consistent[OF assms(2), folded xs_def cmp_def]
  have m: "mset ys = mset xs"
    using assms(1) by (simp add: ys sort_short_mset sorts_consistent_def)
  have "sorted_wrt (\<lambda>x y. cmp x y \<le> 0) ys"
    using assms(1) c(1) sort_short_sorted[of cmp xs] by (simp add: ys sorts_consistent_def)
  moreover have "set ys = set xs"
    using arg_cong[OF m, of set_mset] by simp
  ultimately have "sorted_wrt (\<lambda>a b. num_le (lectureNumber a) (lectureNumber b)) ys"
    using c(2) by (auto simp: cmp_def elim!: sorted_wrt_mono_rel[rotated])
  with m show ?thesis by (simp add: ys_def xs_def)
qed

theorem getAllLectures_sorted_witness:
  "sorts_consistent (sort_short :: Lecture sort_long)
   \<and> map lectureNumber (Map_values (lectures store_numbered)) = [Num 2, Num 3, Num 1]
   \<and> sorted_wrt (\<lambda>a b. num_le (lectureNumber a) (lectureNumber b))
        (getAllLectures sort_short store_numbered)
   \<and> mset (getAllLectures sort_short store_numbered) = mset (Map_values (lectures store_numbered))"
proof -
  have n: "map lectureNumber (Map_values (lectures store_numbered)) = [Num 2, Num 3, Num 1]"
    by (simp add: store_numbered_def lecture_numbered_def addLecture_def createStore_def
        Map_values_def)
  then have "\<forall>l \<in> set (Map_values (lectures store_numbered)). lectureNumber l \<noteq> NaN"
    by (auto simp: map_eq_Cons_conv)
  from getAllLectures_sorted[OF sorts_consistent_sort_short this] n sorts_consistent_sort_short
  show ?thesis by simp
qed

end
